theory Spec2Isabelle
  imports Main
begin

section \<open>The document tree\<close>

text \<open>
  The program of \<^verbatim>\<open>src/study/selection.js\<close> works on the DOM of the host page. A node is
  modelled with the fields the program reads: its kind, its identity (a number, so that
  the \<^verbatim>\<open>===\<close> of the source is equality of identities), the character data of a text
  node, the tag name, the class name and the inline style of an element, and the ordered
  children.
  A JavaScript reference to a node is the identity of the node; \<^verbatim>\<open>null\<close> and
  \<^verbatim>\<open>undefined\<close> are \<open>None\<close>.

  The model holds the nodes of the document. The program reaches a node through the
  document (the traversal from \<^verbatim>\<open>document\<close>, the indexed lookup by tag name) or as a
  container of a range, which the host takes from the document; a reference that
  resolves to no node of the document is treated as a reference to no node. Tag names
  are the names as the host reports them.
\<close>

type_synonym style = "(string \<times> string) list"

datatype node =
    Text nat string
  | Element nat string string style "node list"
  | Document nat "node list"

fun nodeId :: "node \<Rightarrow> nat" where
  "nodeId (Text i d) = i"
| "nodeId (Element i t cl s cs) = i"
| "nodeId (Document i cs) = i"

fun nodeType :: "node \<Rightarrow> nat" where
  "nodeType (Text i d) = 3"
| "nodeType (Element i t cl s cs) = 1"
| "nodeType (Document i cs) = 9"

fun childNodes :: "node \<Rightarrow> node list" where
  "childNodes (Text i d) = []"
| "childNodes (Element i t cl s cs) = cs"
| "childNodes (Document i cs) = cs"

text \<open>
  \<^verbatim>\<open>textContent\<close>: the data of a text node, the concatenated text of the descendants of
  an element. (The source reads it on text nodes only; for a document node the DOM reports
  \<^verbatim>\<open>null\<close>, a case the program never reaches.)
\<close>

fun textContent :: "node \<Rightarrow> string" where
  "textContent (Text i d) = d"
| "textContent (Element i t cl s cs) = concat (map textContent cs)"
| "textContent (Document i cs) = concat (map textContent cs)"

fun isElement :: "node \<Rightarrow> bool" where
  "isElement (Element i t cl s cs) = True"
| "isElement n = False"

fun tagName :: "node \<Rightarrow> string" where
  "tagName (Element i t cl s cs) = t"
| "tagName n = []"

fun className :: "node \<Rightarrow> string" where
  "className (Element i t cl s cs) = cl"
| "className n = []"

fun inlineStyle :: "node \<Rightarrow> style" where
  "inlineStyle (Element i t cl s cs) = s"
| "inlineStyle n = []"

text \<open>Tree order (document order): a node before its children, children left to right.\<close>

fun preorder :: "node \<Rightarrow> node list" where
  "preorder (Text i d) = [Text i d]"
| "preorder (Element i t cl s cs) = Element i t cl s cs # concat (map preorder cs)"
| "preorder (Document i cs) = Document i cs # concat (map preorder cs)"

fun nodeCount :: "node \<Rightarrow> nat" where
  "nodeCount (Text i d) = 1"
| "nodeCount (Element i t cl s cs) = Suc (sum_list (map nodeCount cs))"
| "nodeCount (Document i cs) = Suc (sum_list (map nodeCount cs))"

subsection \<open>The host's read access\<close>

definition findNode :: "nat \<Rightarrow> node \<Rightarrow> node option" where
  "findNode i root = find (\<lambda>n. nodeId n = i) (preorder root)"

definition parentNode :: "nat \<Rightarrow> node \<Rightarrow> node option" where
  "parentNode i root = find (\<lambda>p. i \<in> set (map nodeId (childNodes p))) (preorder root)"

text \<open>\<^verbatim>\<open>parentElement\<close> is the parent when the parent is an element, \<^verbatim>\<open>null\<close> otherwise.\<close>

definition parentElement :: "nat \<Rightarrow> node \<Rightarrow> node option" where
  "parentElement i root =
     (case parentNode i root of
        Some (Element j t cl s cs) \<Rightarrow> Some (Element j t cl s cs)
      | _ \<Rightarrow> None)"

fun siblingAfter :: "nat \<Rightarrow> node list \<Rightarrow> nat option" where
  "siblingAfter i [] = None"
| "siblingAfter i [c] = None"
| "siblingAfter i (c # d # cs) = (if nodeId c = i then Some (nodeId d) else siblingAfter i (d # cs))"

definition nextSibling :: "nat \<Rightarrow> node \<Rightarrow> nat option" where
  "nextSibling i root =
     (case parentNode i root of
        None \<Rightarrow> None
      | Some p \<Rightarrow> siblingAfter i (childNodes p))"

text \<open>
  \<^verbatim>\<open>document.getElementsByTagName(tag)\<close>: the elements below the document with that tag
  name, in tree order; the name \<^verbatim>\<open>*\<close> stands for every element. Names are compared as
  an XML document compares them, character by character. (In an HTML document the host
  also finds an HTML element under a name that differs from its own in case only; the
  names the program passes are the names \<^verbatim>\<open>tagName\<close> gave it.)
\<close>

definition getElementsByTagName :: "node \<Rightarrow> string \<Rightarrow> node list" where
  "getElementsByTagName root tag =
     filter (\<lambda>n. isElement n \<and> (tag = ''*'' \<or> tagName n = tag))
       (concat (map preorder (childNodes root)))"

text \<open>\<^verbatim>\<open>Array.prototype.indexOf\<close> on an array of nodes: the first index holding that node, or \<open>-1\<close>.\<close>

fun indexOf :: "node list \<Rightarrow> nat \<Rightarrow> int" where
  "indexOf [] i = - 1"
| "indexOf (x # xs) i =
     (if nodeId x = i then 0
      else (let r = indexOf xs i in if r < 0 then - 1 else r + 1))"

text \<open>Indexed access \<^verbatim>\<open>xs[k]\<close>: \<^verbatim>\<open>undefined\<close> outside the collection.\<close>

definition item :: "'a list \<Rightarrow> int \<Rightarrow> 'a option" where
  "item xs k = (if 0 \<le> k \<and> k < int (length xs) then Some (xs ! nat k) else None)"

subsection \<open>The page: document, node allocation, the persisted slot\<close>

datatype error = TypeError | IndexSizeError

record address =
  parentTagName :: string
  parentIndex :: int
  textNodeOffset :: int
  textNodeLength :: int

text \<open>
  \<open>root\<close> is \<^verbatim>\<open>document\<close>; \<open>fresh\<close> is the identity the next created node receives;
  \<open>selectionItem\<close> is the value of \<^verbatim>\<open>localStorage.getItem('selection')\<close>, the parsed JSON
  array, or \<open>None\<close> when the key was never written.
\<close>

record page =
  root :: node
  fresh :: nat
  selectionItem :: "address list option"

subsection \<open>The host's mutations\<close>

text \<open>
  \<^verbatim>\<open>text.splitText(offset)\<close> keeps the first \<open>offset\<close> characters in the node and moves the
  rest into a new text node, which becomes the next sibling when the node has a parent.
\<close>

fun splitSibling :: "nat \<Rightarrow> nat \<Rightarrow> nat \<Rightarrow> node \<Rightarrow> node list" where
  "splitSibling i off new (Text k d) = (if k = i then [Text new (drop off d)] else [])"
| "splitSibling i off new n = []"

fun splitTextIn :: "nat \<Rightarrow> nat \<Rightarrow> nat \<Rightarrow> node \<Rightarrow> node" where
  "splitTextIn i off new (Text k d) = Text k (if k = i then take off d else d)"
| "splitTextIn i off new (Element j t cl s cs) =
     Element j t cl s (concat (map (\<lambda>c. splitTextIn i off new c # splitSibling i off new c) cs))"
| "splitTextIn i off new (Document j cs) =
     Document j (concat (map (\<lambda>c. splitTextIn i off new c # splitSibling i off new c) cs))"

text \<open>
  The host takes the offset as an \<^verbatim>\<open>unsigned long\<close>: a number outside \<open>0 .. 2 ^ 32 - 1\<close>
  is reduced modulo \<open>2 ^ 32\<close> first (so \<open>-1\<close> becomes \<open>2 ^ 32 - 1\<close>, and \<open>2 ^ 32 + 1\<close> becomes 1).
  Beyond the length of the data the call raises \<^verbatim>\<open>IndexSizeError\<close>. The length of the data
  of a text node of the host is itself below \<open>2 ^ 32\<close>, so an offset within the data is never
  changed by the conversion. On something that is not a text node there is no such
  method: \<^verbatim>\<open>TypeError\<close>.
\<close>

definition unsignedLong :: "nat \<Rightarrow> int \<Rightarrow> int" where
  "unsignedLong len offset =
     (if 0 \<le> offset \<and> offset \<le> int len then offset else offset mod 4294967296)"

definition splitText :: "page \<Rightarrow> nat \<Rightarrow> int \<Rightarrow> error + page" where
  "splitText pg i offset =
     (case findNode i (root pg) of
        Some (Text k d) \<Rightarrow>
          if int (length d) < unsignedLong (length d) offset then Inl IndexSizeError
          else Inr (pg\<lparr>root := splitTextIn i (nat (unsignedLong (length d) offset)) (fresh pg) (root pg),
                        fresh := Suc (fresh pg)\<rparr>)
      | _ \<Rightarrow> Inl TypeError)"

text \<open>\<^verbatim>\<open>node.cloneNode(false)\<close>: a new node with the node's own data and no children.\<close>

fun cloneNode :: "nat \<Rightarrow> node \<Rightarrow> node" where
  "cloneNode new (Text i d) = Text new d"
| "cloneNode new (Element i t cl s cs) = Element new t cl s []"
| "cloneNode new (Document i cs) = Document new []"

text \<open>\<^verbatim>\<open>parent.replaceChild(w, node)\<close>, with the node given by its identity.\<close>

fun replaceChild :: "nat \<Rightarrow> node \<Rightarrow> node \<Rightarrow> node" where
  "replaceChild i w (Text k d) = Text k d"
| "replaceChild i w (Element j t cl s cs) =
     Element j t cl s (map (\<lambda>c. if nodeId c = i then w else replaceChild i w c) cs)"
| "replaceChild i w (Document j cs) =
     Document j (map (\<lambda>c. if nodeId c = i then w else replaceChild i w c) cs)"

section \<open>The program\<close>

subsection \<open>getTextNodeOffset\<close>

text \<open>
  The stack of the source is a list whose head is the top. Pushing the children from the
  last to the first puts them on top in their order.
\<close>

function getTextNodeOffset_loop :: "node list \<Rightarrow> nat \<Rightarrow> int \<Rightarrow> int" where
  "getTextNodeOffset_loop [] textNode offset = offset"
| "getTextNodeOffset_loop (currentNode # nodeStack) textNode offset =
     (if nodeType currentNode = 3 \<and> nodeId currentNode \<noteq> textNode then
        getTextNodeOffset_loop (childNodes currentNode @ nodeStack) textNode
          (offset + int (length (textContent currentNode)))
      else if nodeType currentNode = 3 then offset
      else getTextNodeOffset_loop (childNodes currentNode @ nodeStack) textNode offset)"
  by pat_completeness auto
termination
  by (relation "measure (\<lambda>(st, t, off). sum_list (map nodeCount st))")
     (auto, (case_tac currentNode; simp)+)

definition getTextNodeOffset :: "node \<Rightarrow> nat \<Rightarrow> int" where
  "getTextNodeOffset parentEl textNode = getTextNodeOffset_loop [parentEl] textNode 0"

subsection \<open>getSelectedTextNodePosition, storeSelectedNodes\<close>

definition getSelectedTextNodePosition :: "page \<Rightarrow> nat option \<Rightarrow> error + address" where
  "getSelectedTextNodePosition pg selectedTextNode =
     (case selectedTextNode of
        None \<Rightarrow> Inl TypeError
      | Some i \<Rightarrow>
          (case parentElement i (root pg) of
             None \<Rightarrow> Inl TypeError
           | Some pe \<Rightarrow>
               (case findNode i (root pg) of
                  None \<Rightarrow> Inl TypeError
                | Some n \<Rightarrow>
                    Inr \<lparr>parentTagName = tagName pe,
                         parentIndex = indexOf (getElementsByTagName (root pg) (tagName pe)) (nodeId pe),
                         textNodeOffset = getTextNodeOffset pe i,
                         textNodeLength = int (length (textContent n))\<rparr>)))"

fun positions :: "page \<Rightarrow> nat option list \<Rightarrow> error + address list" where
  "positions pg [] = Inr []"
| "positions pg (n # ns) =
     (case getSelectedTextNodePosition pg n of
        Inl e \<Rightarrow> Inl e
      | Inr a \<Rightarrow> (case positions pg ns of Inl e \<Rightarrow> Inl e | Inr as \<Rightarrow> Inr (a # as)))"

definition storeSelectedNodes :: "page \<Rightarrow> nat option list \<Rightarrow> error + page" where
  "storeSelectedNodes pg selectedTextNodes =
     (case positions pg selectedTextNodes of
        Inl e \<Rightarrow> Inl e
      | Inr selectedTextNodePositions \<Rightarrow> Inr (pg\<lparr>selectionItem := Some selectedTextNodePositions\<rparr>))"

subsection \<open>The default options\<close>

text \<open>
  The constants of \<^verbatim>\<open>src/unnamed/part_000\<close>: the tag of a highlight wrapper and the class
  name of the highlight style that the default options supply.
\<close>

record options =
  wrapTag :: string
  styleClassName :: string

definition DEFAULT_WRAP_TAG :: string where
  "DEFAULT_WRAP_TAG = ''span''"

definition getDefaultOptions :: options where
  "getDefaultOptions = \<lparr>wrapTag = DEFAULT_WRAP_TAG, styleClassName = ''highlight-mengshou-wrap''\<rparr>"

subsection \<open>wrapHighlight\<close>

text \<open>
  \<^verbatim>\<open>document.createElement('span')\<close> gives an element with no class name; the function
  sets the inline style \<^verbatim>\<open>backgroundColor\<close> and nothing else on it.
\<close>

definition wrapHighlight :: "page \<Rightarrow> nat option \<Rightarrow> error + page \<times> nat" where
  "wrapHighlight pg node =
     (case node of
        None \<Rightarrow> Inl TypeError
      | Some i \<Rightarrow>
          (case findNode i (root pg) of
             None \<Rightarrow> Inl TypeError
           | Some n \<Rightarrow>
               (let wrapper = Element (fresh pg) ''span'' [] [(''backgroundColor'', ''yellow'')]
                                [cloneNode (Suc (fresh pg)) n]
                in case parentNode i (root pg) of
                     None \<Rightarrow> Inl TypeError
                   | Some p \<Rightarrow>
                       Inr (pg\<lparr>root := replaceChild i wrapper (root pg),
                               fresh := Suc (Suc (fresh pg))\<rparr>, fresh pg))))"

fun wrapAll :: "page \<Rightarrow> nat option list \<Rightarrow> error + page" where
  "wrapAll pg [] = Inr pg"
| "wrapAll pg (n # ns) =
     (case wrapHighlight pg n of
        Inl e \<Rightarrow> Inl e
      | Inr (pg', w) \<Rightarrow> wrapAll pg' ns)"

subsection \<open>getNodesIfSameStartEnd, getSelectedNodes\<close>

record Range =
  startContainer :: "nat option"
  startOffset :: int
  endContainer :: "nat option"
  endOffset :: int

definition getNodesIfSameStartEnd :: "page \<Rightarrow> Range \<Rightarrow> error + page \<times> nat option list" where
  "getNodesIfSameStartEnd pg rng =
     (case startContainer rng of
        None \<Rightarrow> Inl TypeError
      | Some s \<Rightarrow>
          (case splitText pg s (startOffset rng) of
             Inl e \<Rightarrow> Inl e
           | Inr pg1 \<Rightarrow>
               (case nextSibling s (root pg1) of
                  None \<Rightarrow> Inl TypeError
                | Some selectedContainer \<Rightarrow>
                    (case splitText pg1 selectedContainer (endOffset rng - startOffset rng) of
                       Inl e \<Rightarrow> Inl e
                     | Inr pg2 \<Rightarrow> Inr (pg2, [Some selectedContainer])))))"

text \<open>
  The traversal of \<^verbatim>\<open>getSelectedNodes\<close>. The stack holds the nodes as they were pushed. A
  split changes the data of the text node just popped and the child list of its parent,
  which was popped before it, so no node still on the stack is touched by it.
\<close>

function getSelectedNodes_loop ::
  "Range \<Rightarrow> page \<Rightarrow> node list \<Rightarrow> bool \<Rightarrow> nat option list \<Rightarrow> error + page \<times> nat option list" where
  "getSelectedNodes_loop rng pg [] withinSelectedRange selectedNodes = Inr (pg, selectedNodes)"
| "getSelectedNodes_loop rng pg (currentNode # nodesStack) withinSelectedRange selectedNodes =
     (if Some (nodeId currentNode) = startContainer rng then
        (if nodeType currentNode = 3 then
           (case splitText pg (nodeId currentNode) (startOffset rng) of
              Inl e \<Rightarrow> Inl e
            | Inr pg1 \<Rightarrow>
                getSelectedNodes_loop rng pg1 (childNodes currentNode @ nodesStack) True
                  (selectedNodes @ [nextSibling (nodeId currentNode) (root pg1)]))
         else getSelectedNodes_loop rng pg (childNodes currentNode @ nodesStack) True selectedNodes)
      else if Some (nodeId currentNode) = endContainer rng then
        (if nodeType currentNode = 3 then
           (case splitText pg (nodeId currentNode) (endOffset rng) of
              Inl e \<Rightarrow> Inl e
            | Inr pg1 \<Rightarrow> Inr (pg1, selectedNodes @ [Some (nodeId currentNode)]))
         else Inr (pg, selectedNodes))
      else if withinSelectedRange \<and> nodeType currentNode = 3 then
        getSelectedNodes_loop rng pg (childNodes currentNode @ nodesStack) withinSelectedRange
          (selectedNodes @ [Some (nodeId currentNode)])
      else
        getSelectedNodes_loop rng pg (childNodes currentNode @ nodesStack) withinSelectedRange
          selectedNodes)"
  by pat_completeness auto
termination
  by (relation "measure (\<lambda>(r, pg, st, w, sel). sum_list (map nodeCount st))")
     (auto, (case_tac currentNode; simp)+)

text \<open>
  The same traversal with the stack of the source taken literally, as a stack of
  references, each resolved in the document as it is at the moment it is popped. On a
  tree in which an identity occurs twice this loop need not end, so its result is an
  option. On a well-formed page it returns what the loop above returns (lemma
  \<open>getSelectedNodes_refs_root\<close> below).
\<close>

partial_function (option) getSelectedNodes_refs ::
  "Range \<Rightarrow> page \<Rightarrow> nat list \<Rightarrow> bool \<Rightarrow> nat option list \<Rightarrow> (error + page \<times> nat option list) option" where
  "getSelectedNodes_refs rng pg nodesStack withinSelectedRange selectedNodes =
     (case nodesStack of
        [] \<Rightarrow> Some (Inr (pg, selectedNodes))
      | cur # rest \<Rightarrow>
          (case findNode cur (root pg) of
             None \<Rightarrow> Some (Inl TypeError)
           | Some currentNode \<Rightarrow>
               (if Some cur = startContainer rng then
                  (if nodeType currentNode = 3 then
                     (case splitText pg cur (startOffset rng) of
                        Inl e \<Rightarrow> Some (Inl e)
                      | Inr pg1 \<Rightarrow>
                          getSelectedNodes_refs rng pg1 (map nodeId (childNodes currentNode) @ rest) True
                            (selectedNodes @ [nextSibling cur (root pg1)]))
                   else getSelectedNodes_refs rng pg (map nodeId (childNodes currentNode) @ rest) True
                          selectedNodes)
                else if Some cur = endContainer rng then
                  (if nodeType currentNode = 3 then
                     (case splitText pg cur (endOffset rng) of
                        Inl e \<Rightarrow> Some (Inl e)
                      | Inr pg1 \<Rightarrow> Some (Inr (pg1, selectedNodes @ [Some cur])))
                   else Some (Inr (pg, selectedNodes)))
                else if withinSelectedRange \<and> nodeType currentNode = 3 then
                  getSelectedNodes_refs rng pg (map nodeId (childNodes currentNode) @ rest)
                    withinSelectedRange (selectedNodes @ [Some cur])
                else
                  getSelectedNodes_refs rng pg (map nodeId (childNodes currentNode) @ rest)
                    withinSelectedRange selectedNodes)))"

definition instanceofText :: "page \<Rightarrow> nat option \<Rightarrow> bool" where
  "instanceofText pg r =
     (case r of
        None \<Rightarrow> False
      | Some i \<Rightarrow> (case findNode i (root pg) of Some (Text k d) \<Rightarrow> True | _ \<Rightarrow> False))"

definition getSelectedNodes :: "page \<Rightarrow> Range \<Rightarrow> error + page \<times> nat option list" where
  "getSelectedNodes pg rng =
     (if startContainer rng = endContainer rng \<and> instanceofText pg (startContainer rng)
      then getNodesIfSameStartEnd pg rng
      else getSelectedNodes_loop rng pg [root pg] False [])"

subsection \<open>restoreContainer, restoreSelectedNodes\<close>

text \<open>
  The loop returns the node it stopped at (\<open>None\<close> when the stack ran empty) and
  \<^verbatim>\<open>finalOffset\<close>.
\<close>

function restoreContainer_loop :: "int \<Rightarrow> node list \<Rightarrow> int \<Rightarrow> int \<Rightarrow> nat option \<times> int" where
  "restoreContainer_loop tnOffset [] currentOffset finalOffset = (None, finalOffset)"
| "restoreContainer_loop tnOffset (currentNode # nodeStack) currentOffset finalOffset =
     (if nodeType currentNode = 3 then
        (if currentOffset + int (length (textContent currentNode)) \<ge> tnOffset
         then (Some (nodeId currentNode), tnOffset - currentOffset)
         else restoreContainer_loop tnOffset (childNodes currentNode @ nodeStack)
                (currentOffset + int (length (textContent currentNode)))
                (tnOffset - currentOffset))
      else restoreContainer_loop tnOffset (childNodes currentNode @ nodeStack)
             currentOffset finalOffset)"
  by pat_completeness auto
termination
  by (relation "measure (\<lambda>(off, st, c, f). sum_list (map nodeCount st))")
     (auto, (case_tac currentNode; simp)+)

text \<open>
  When the indexed lookup finds no element, \<^verbatim>\<open>parentElement\<close> is \<^verbatim>\<open>undefined\<close>: the
  stack holds only that, the loop body never runs, and the result is
  \<^verbatim>\<open>{node: undefined, offset: 0}\<close>.
\<close>

definition restoreContainer :: "page \<Rightarrow> address \<Rightarrow> nat option \<times> int" where
  "restoreContainer pg nodeInfo =
     (case item (getElementsByTagName (root pg) (parentTagName nodeInfo)) (parentIndex nodeInfo) of
        None \<Rightarrow> (None, 0)
      | Some parentEl \<Rightarrow>
          (case restoreContainer_loop (textNodeOffset nodeInfo) [parentEl] 0 0 of
             (None, finalOffset) \<Rightarrow> (Some (nodeId parentEl), finalOffset)
           | (Some currentNode, finalOffset) \<Rightarrow> (Some currentNode, finalOffset)))"

definition restoreSelectedNodes :: "page \<Rightarrow> address list \<Rightarrow> error + Range" where
  "restoreSelectedNodes pg stored =
     (case stored of
        startSelectedNode # endSelectNode # rest \<Rightarrow>
          Inr \<lparr>startContainer = fst (restoreContainer pg startSelectedNode),
               startOffset = snd (restoreContainer pg startSelectedNode),
               endContainer = fst (restoreContainer pg endSelectNode),
               endOffset = snd (restoreContainer pg endSelectNode) + textNodeLength endSelectNode\<rparr>
      | _ \<Rightarrow> Inl TypeError)"

subsection \<open>selection: the mouseup handler and the restore at load\<close>

record liveSelection =
  isCollapsed :: bool
  rangeAt0 :: Range

text \<open>
  \<^verbatim>\<open>window.getSelection()\<close> for a selection with one range: the host reports
  \<^verbatim>\<open>isCollapsed\<close> exactly when the two boundary points of the range are the same.
\<close>

definition getSelection :: "Range \<Rightarrow> liveSelection" where
  "getSelection rng =
     \<lparr>isCollapsed = (startContainer rng = endContainer rng \<and> startOffset rng = endOffset rng),
      rangeAt0 = rng\<rparr>"

definition item0 :: "nat option list \<Rightarrow> nat option" where
  "item0 xs = (case xs of [] \<Rightarrow> None | x # _ \<Rightarrow> x)"

definition itemLast :: "nat option list \<Rightarrow> nat option" where
  "itemLast xs = (case rev xs of [] \<Rightarrow> None | x # _ \<Rightarrow> x)"

definition mouseup :: "page \<Rightarrow> liveSelection \<Rightarrow> error + page" where
  "mouseup pg selection =
     (if isCollapsed selection = False then
        (case getSelectedNodes pg (rangeAt0 selection) of
           Inl e \<Rightarrow> Inl e
         | Inr (pg1, selectedNodes) \<Rightarrow>
             (case storeSelectedNodes pg1 [item0 selectedNodes, itemLast selectedNodes] of
                Inl e \<Rightarrow> Inl e
              | Inr pg2 \<Rightarrow> wrapAll pg2 selectedNodes))
      else Inr pg)"

definition restoreAtLoad :: "page \<Rightarrow> error + page" where
  "restoreAtLoad pg =
     (case selectionItem pg of
        None \<Rightarrow> Inr pg
      | Some stored \<Rightarrow>
          (case restoreSelectedNodes pg stored of
             Inl e \<Rightarrow> Inl e
           | Inr rng \<Rightarrow>
               (case getSelectedNodes pg rng of
                  Inl e \<Rightarrow> Inl e
                | Inr (pg1, selectedNodes) \<Rightarrow> wrapAll pg1 selectedNodes)))"

section \<open>Notions used in the statements\<close>

text \<open>The text leaves below a node, in tree order.\<close>

definition textLeaves :: "node \<Rightarrow> node list" where
  "textLeaves n = filter (\<lambda>x. nodeType x = 3) (preorder n)"

text \<open>
  A well-formed page: the root is the document node, no two nodes of the tree have the
  same identity, and every identity in use lies below the next one to be allocated.
\<close>

definition wellFormed :: "page \<Rightarrow> bool" where
  "wellFormed pg =
     (nodeType (root pg) = 9 \<and> distinct (map nodeId (preorder (root pg)))
      \<and> list_all (\<lambda>n. nodeId n < fresh pg) (preorder (root pg)))"

text \<open>A node with another child sequence and everything else as it was.\<close>

fun withChildNodes :: "node \<Rightarrow> node list \<Rightarrow> node" where
  "withChildNodes (Text i d) cs' = Text i d"
| "withChildNodes (Element i t cl s cs) cs' = Element i t cl s cs'"
| "withChildNodes (Document i cs) cs' = Document i cs'"

text \<open>The element that \<^verbatim>\<open>wrapHighlight\<close> builds around the copy of a node.\<close>

definition highlightWrapper :: "nat \<Rightarrow> node \<Rightarrow> node" where
  "highlightWrapper new n =
     Element new ''span'' [] [(''backgroundColor'', ''yellow'')] [cloneNode (Suc new) n]"

text \<open>
  The loop of \<^verbatim>\<open>restoreContainer\<close> read over the list of the text leaves it visits: only
  text nodes change its state.
\<close>

fun decodeLeaves :: "int \<Rightarrow> node list \<Rightarrow> int \<Rightarrow> int \<Rightarrow> nat option \<times> int" where
  "decodeLeaves off [] cur fin = (None, fin)"
| "decodeLeaves off (x # xs) cur fin =
     (if cur + int (length (textContent x)) \<ge> off then (Some (nodeId x), off - cur)
      else decodeLeaves off xs (cur + int (length (textContent x))) (off - cur))"

text \<open>What a split does to one text leaf and to one identity of the tree order.\<close>

fun splitLeaf :: "nat \<Rightarrow> nat \<Rightarrow> nat \<Rightarrow> node \<Rightarrow> node list" where
  "splitLeaf i off new (Text k d) =
     (if k = i then [Text k (take off d), Text new (drop off d)] else [Text k d])"
| "splitLeaf i off new n = [n]"

fun splitIds :: "nat \<Rightarrow> nat \<Rightarrow> node \<Rightarrow> nat list" where
  "splitIds i new (Text k d) = (if k = i then [k, new] else [k])"
| "splitIds i new n = [nodeId n]"

text \<open>
  What holds of the stack of \<^verbatim>\<open>getSelectedNodes\<close> at every iteration: the subtrees on
  it share no identity and are subtrees of the document as it is now.
\<close>

definition stackLive :: "page \<Rightarrow> node list \<Rightarrow> bool" where
  "stackLive pg st =
     (wellFormed pg \<and> distinct (map nodeId (concat (map preorder st)))
      \<and> list_all (\<lambda>n. n \<in> set (preorder (root pg))) st)"

text \<open>
  The loop of \<^verbatim>\<open>getSelectedNodes\<close> read over the list of the nodes it visits, in tree
  order: the same body, with the rest of the list in the place of the stack.
\<close>

fun collectList ::
  "Range \<Rightarrow> page \<Rightarrow> node list \<Rightarrow> bool \<Rightarrow> nat option list \<Rightarrow> error + page \<times> nat option list" where
  "collectList rng pg [] within selectedNodes = Inr (pg, selectedNodes)"
| "collectList rng pg (currentNode # ns) within selectedNodes =
     (if Some (nodeId currentNode) = startContainer rng then
        (if nodeType currentNode = 3 then
           (case splitText pg (nodeId currentNode) (startOffset rng) of
              Inl e \<Rightarrow> Inl e
            | Inr pg1 \<Rightarrow>
                collectList rng pg1 ns True
                  (selectedNodes @ [nextSibling (nodeId currentNode) (root pg1)]))
         else collectList rng pg ns True selectedNodes)
      else if Some (nodeId currentNode) = endContainer rng then
        (if nodeType currentNode = 3 then
           (case splitText pg (nodeId currentNode) (endOffset rng) of
              Inl e \<Rightarrow> Inl e
            | Inr pg1 \<Rightarrow> Inr (pg1, selectedNodes @ [Some (nodeId currentNode)]))
         else Inr (pg, selectedNodes))
      else if within \<and> nodeType currentNode = 3 then
        collectList rng pg ns within (selectedNodes @ [Some (nodeId currentNode)])
      else collectList rng pg ns within selectedNodes)"

subsection \<open>Boundary points and the text between them\<close>

text \<open>
  A boundary point is a node and an offset: a character index in a text node, a child
  index in any other node. The following are the host's notions, as the DOM defines them:
  when an offset is within bounds, when one boundary point is before another, and the text
  between two boundary points (\<^verbatim>\<open>Range.toString()\<close>).
\<close>










subsection \<open>Example pages\<close>

text \<open>The document \<^verbatim>\<open><p>Hello</p><p>World</p>\<close> of the concrete scenarios.\<close>

definition scenarioPage :: page where
  "scenarioPage =
     \<lparr>root = Document 0 [Element 1 ''html'' [] [] [Element 2 ''body'' [] []
               [Element 3 ''p'' [] [] [Text 4 ''Hello''], Element 5 ''p'' [] [] [Text 6 ''World'']]]],
      fresh = 7, selectionItem = None\<rparr>"

text \<open>The document \<^verbatim>\<open><p>ab<b>c</b>de</p>\<close>.\<close>

definition inlinePage :: page where
  "inlinePage =
     \<lparr>root = Document 0 [Element 1 ''p'' [] []
               [Text 2 ''ab'', Element 3 ''b'' [] [] [Text 4 ''c''], Text 5 ''de'']],
      fresh = 6, selectionItem = None\<rparr>"

text \<open>A paragraph with an empty text node between two others.\<close>

definition emptyLeafPage :: page where
  "emptyLeafPage =
     \<lparr>root = Document 0 [Element 1 ''p'' [] [] [Text 2 ''ab'', Text 3 [], Text 4 ''cd'']],
      fresh = 5, selectionItem = None\<rparr>"

text \<open>The same page with a stored selection whose start address has an index out of range.\<close>

definition missingStartPage :: page where
  "missingStartPage = scenarioPage\<lparr>selectionItem :=
     Some [\<lparr>parentTagName = ''p'', parentIndex = 7, textNodeOffset = 3, textNodeLength = 2\<rparr>,
           \<lparr>parentTagName = ''p'', parentIndex = 1, textNodeOffset = 0, textNodeLength = 3\<rparr>]\<rparr>"

text \<open>The same page with a stored selection whose two addresses have an index out of range.\<close>

definition bothMissingPage :: page where
  "bothMissingPage = scenarioPage\<lparr>selectionItem :=
     Some [\<lparr>parentTagName = ''p'', parentIndex = 7, textNodeOffset = 3, textNodeLength = 2\<rparr>,
           \<lparr>parentTagName = ''p'', parentIndex = 2, textNodeOffset = 0, textNodeLength = 3\<rparr>]\<rparr>"

subsection \<open>Example ranges\<close>

text \<open>Scenario A: the characters 2 to 5 of \<^verbatim>\<open>Hello\<close>.\<close>

definition scenarioRange :: Range where
  "scenarioRange = \<lparr>startContainer = Some 4, startOffset = 2, endContainer = Some 4, endOffset = 5\<rparr>"




text \<open>In \<^verbatim>\<open><p>ab<b>c</b>de</p>\<close>: the first character of the leaf \<^verbatim>\<open>de\<close>.\<close>

definition afterSiblingRange :: Range where
  "afterSiblingRange = \<lparr>startContainer = Some 5, startOffset = 0, endContainer = Some 5, endOffset = 1\<rparr>"

text \<open>The two addresses that the mouseup handler stores for that selection.\<close>

definition afterSiblingStored :: "address list" where
  "afterSiblingStored =
     [\<lparr>parentTagName = ''p'', parentIndex = 0, textNodeOffset = 3, textNodeLength = 1\<rparr>,
      \<lparr>parentTagName = ''p'', parentIndex = 0, textNodeOffset = 3, textNodeLength = 1\<rparr>]"

section \<open>Lemmas\<close>

lemma preorder_unfold: "preorder n = n # concat (map preorder (childNodes n))"
  by (cases n) simp_all

lemma nodeType_3_iff: "nodeType n = 3 \<longleftrightarrow> (\<exists>i d. n = Text i d)"
  by (cases n) simp_all

lemma getTextNodeOffset_loop_list:
  "getTextNodeOffset_loop st t off =
     off + int (length (concat (map textContent
             (takeWhile (\<lambda>x. nodeId x \<noteq> t) (filter (\<lambda>x. nodeType x = 3) (concat (map preorder st)))))))"
proof (induction st t off rule: getTextNodeOffset_loop.induct)
  case (1 t off)
  show ?case by simp
next
  case (2 cur st t off)
  show ?case
  proof (cases cur)
    case (Text i d)
    then show ?thesis using 2 by simp
  next
    case (Element i tg cl s cs)
    then show ?thesis using 2 by simp
  next
    case (Document i cs)
    then show ?thesis using 2 by simp
  qed
qed

lemma textContent_children:
  "(\<And>c. c \<in> set cs \<Longrightarrow>
      textContent c = concat (map textContent (filter (\<lambda>x. nodeType x = 3) (preorder c)))) \<Longrightarrow>
   concat (map textContent cs) =
     concat (map textContent (filter (\<lambda>x. nodeType x = 3) (concat (map preorder cs))))"
  by (induction cs) simp_all

lemma textContent_leaves:
  "textContent n = concat (map textContent (filter (\<lambda>x. nodeType x = 3) (preorder n)))"
  by (induction n) (simp_all add: textContent_children)

lemma restoreContainer_loop_list:
  "restoreContainer_loop off st cur fin =
     decodeLeaves off (filter (\<lambda>x. nodeType x = 3) (concat (map preorder st))) cur fin"
proof (induction off st cur fin rule: restoreContainer_loop.induct)
  case (1 off cur fin)
  show ?case by simp
next
  case (2 off c st cur fin)
  show ?case
  proof (cases c)
    case (Text i d)
    then show ?thesis using 2 by simp
  next
    case (Element i tg cl s cs)
    then show ?thesis using 2 by simp
  next
    case (Document i cs)
    then show ?thesis using 2 by simp
  qed
qed

lemma decodeLeaves_stop:
  assumes "off = cur + int (length (concat (map textContent before))) + int (length (textContent x))"
    and "textContent x \<noteq> []"
  shows "decodeLeaves off (before @ x # after) cur fin = (Some (nodeId x), int (length (textContent x)))"
  using assms
proof (induction before arbitrary: cur fin)
  case Nil
  then show ?case by simp
next
  case (Cons b bs)
  have pos: "0 < int (length (textContent x))"
    using Cons.prems(2) by simp
  have eq: "off = cur + int (length (textContent b)) + int (length (concat (map textContent bs)))
      + int (length (textContent x))"
    using Cons.prems(1) by simp
  have "\<not> off \<le> cur + int (length (textContent b))"
    using pos eq by linarith
  moreover have "decodeLeaves off (bs @ x # after) (cur + int (length (textContent b))) (off - cur)
      = (Some (nodeId x), int (length (textContent x)))"
    by (rule Cons.IH) (use eq Cons.prems(2) in simp_all)
  ultimately show ?case by simp
qed

lemma indexOf_item:
  "x \<in> set xs \<Longrightarrow> distinct (map nodeId xs) \<Longrightarrow> item xs (indexOf xs (nodeId x)) = Some x"
proof (induction xs)
  case Nil
  then show ?case by simp
next
  case (Cons y ys)
  show ?case
  proof (cases "nodeId y = nodeId x")
    case True
    then have "x = y" using Cons.prems by (auto simp: image_iff)
    then show ?thesis by (simp add: item_def)
  next
    case False
    then have mem: "x \<in> set ys" using Cons.prems by auto
    then have ih: "item ys (indexOf ys (nodeId x)) = Some x"
      using Cons.IH Cons.prems by simp
    then have bounds: "0 \<le> indexOf ys (nodeId x)" "indexOf ys (nodeId x) < int (length ys)"
      and nth: "ys ! nat (indexOf ys (nodeId x)) = x"
      by (auto simp: item_def split: if_splits)
    have "nat (indexOf ys (nodeId x) + 1) = Suc (nat (indexOf ys (nodeId x)))"
      using bounds by simp
    then show ?thesis using False bounds nth by (simp add: item_def Let_def)
  qed
qed

lemma find_distinct_id:
  "distinct (map nodeId xs) \<Longrightarrow> x \<in> set xs \<Longrightarrow> find (\<lambda>n. nodeId n = nodeId x) xs = Some x"
  by (induction xs) (auto simp: image_iff)

lemma findNode_mem: "findNode i r = Some n \<Longrightarrow> n \<in> set (preorder r) \<and> nodeId n = i"
  by (auto simp: findNode_def find_Some_iff)

lemma parentNode_mem:
  "parentNode i r = Some p \<Longrightarrow> p \<in> set (preorder r) \<and> i \<in> set (map nodeId (childNodes p))"
  unfolding parentNode_def find_Some_iff by (metis nth_mem)

lemma parentElement_cases:
  "parentElement i r = Some pe \<Longrightarrow> parentNode i r = Some pe \<and> isElement pe"
  by (auto simp: parentElement_def split: option.splits node.splits)

lemma getTextNodeOffset_leaves:
  "getTextNodeOffset pe l =
     int (length (concat (map textContent (takeWhile (\<lambda>x. nodeId x \<noteq> l) (textLeaves pe)))))"
  by (simp add: getTextNodeOffset_def getTextNodeOffset_loop_list textLeaves_def)

lemma element_below_document:
  assumes "nodeType r = 9" and "pe \<in> set (preorder r)" and "isElement pe"
  shows "pe \<in> set (getElementsByTagName r (tagName pe))"
proof -
  obtain i cs where r: "r = Document i cs" using assms(1) by (cases r) simp_all
  have "pe \<noteq> r" using assms(3) r by auto
  then have "pe \<in> set (concat (map preorder (childNodes r)))"
    using assms(2) r by auto
  then show ?thesis using assms(3) by (simp add: getElementsByTagName_def)
qed

lemma distinct_getElementsByTagName:
  assumes "distinct (map nodeId (preorder r))"
  shows "distinct (map nodeId (getElementsByTagName r tag))"
proof -
  have "distinct (map nodeId (concat (map preorder (childNodes r))))"
    using assms by (cases r) simp_all
  then show ?thesis unfolding getElementsByTagName_def by (rule distinct_map_filter)
qed

lemma node_children_induct [case_names node]:
  assumes "\<And>n. (\<And>c. c \<in> set (childNodes n) \<Longrightarrow> P c) \<Longrightarrow> P n"
  shows "P n"
  by (induction n) (auto intro: assms)

lemma self_in_preorder: "n \<in> set (preorder n)"
  by (cases n) simp_all

lemma child_preorder_subset:
  "c \<in> set (childNodes n) \<Longrightarrow> set (preorder c) \<subseteq> set (preorder n)"
  by (cases n) auto

lemma children_closed:
  "p \<in> set (preorder n) \<Longrightarrow> c \<in> set (childNodes p) \<Longrightarrow> c \<in> set (preorder n)"
proof (induction n rule: node_children_induct)
  case (node n)
  show ?case
  proof (cases "p = n")
    case True
    then show ?thesis
      using node.prems(2) child_preorder_subset self_in_preorder by blast
  next
    case False
    then obtain k where k: "k \<in> set (childNodes n)" "p \<in> set (preorder k)"
      using node.prems(1) by (subst (asm) preorder_unfold) auto
    then have "c \<in> set (preorder k)" using node.IH node.prems(2) by blast
    then show ?thesis using k(1) child_preorder_subset by blast
  qed
qed

lemma replaceChild_id [simp]: "nodeId (replaceChild i w n) = nodeId n"
  by (cases n) simp_all

lemma replaceChild_type [simp]: "nodeType (replaceChild i w n) = nodeType n"
  by (cases n) simp_all

lemma replaceChild_tag [simp]: "tagName (replaceChild i w n) = tagName n"
  by (cases n) simp_all

lemma replaceChild_children:
  "childNodes (replaceChild i w n) =
     map (\<lambda>c. if nodeId c = i then w else replaceChild i w c) (childNodes n)"
  by (cases n) simp_all

lemma replaceChild_absent:
  "i \<notin> set (map nodeId (concat (map preorder (childNodes n)))) \<Longrightarrow> replaceChild i w n = n"
proof (induction n rule: node_children_induct)
  case (node n)
  have "(if nodeId c = i then w else replaceChild i w c) = c" if c: "c \<in> set (childNodes n)" for c
  proof -
    have "set (map nodeId (preorder c)) \<subseteq> set (map nodeId (concat (map preorder (childNodes n))))"
      using c by auto
    then have notin: "i \<notin> set (map nodeId (preorder c))" using node.prems by blast
    then have "nodeId c \<noteq> i" using self_in_preorder[of c] by auto
    moreover have "i \<notin> set (map nodeId (concat (map preorder (childNodes c))))"
      using notin by (subst (asm) preorder_unfold) simp
    ultimately show ?thesis using node.IH[OF c] by simp
  qed
  then have "map (\<lambda>c. if nodeId c = i then w else replaceChild i w c) (childNodes n) = childNodes n"
    by (simp add: map_idI)
  then show ?case by (cases n) simp_all
qed

lemma find_append_cases:
  "find P (xs @ ys) = (case find P xs of None \<Rightarrow> find P ys | Some x \<Rightarrow> Some x)"
  by (induction xs) simp_all

lemma find_concat_Some:
  "find P (concat xss) = Some p \<Longrightarrow>
     \<exists>us k vs. xss = us @ k # vs \<and> (\<forall>u \<in> set us. find P u = None) \<and> find P k = Some p"
proof (induction xss)
  case Nil
  then show ?case by simp
next
  case (Cons xs xss)
  show ?case
  proof (cases "find P xs")
    case None
    then have "find P (concat xss) = Some p" using Cons.prems by (simp add: find_append_cases)
    then obtain us k vs where "xss = us @ k # vs" "\<forall>u \<in> set us. find P u = None" "find P k = Some p"
      using Cons.IH by blast
    then have "xs # xss = (xs # us) @ k # vs \<and> (\<forall>u \<in> set (xs # us). find P u = None) \<and> find P k = Some p"
      using None by simp
    then show ?thesis by blast
  next
    case (Some a)
    then have "find P xs = Some p" using Cons.prems by (simp add: find_append_cases)
    then have "xs # xss = [] @ xs # xss \<and> (\<forall>u \<in> set []. find P u = None) \<and> find P xs = Some p"
      by simp
    then show ?thesis by blast
  qed
qed

lemma find_concat_skip:
  "(\<And>u. u \<in> set us \<Longrightarrow> find P u = None) \<Longrightarrow> find P (concat us @ zs) = find P zs"
  by (induction us) (simp_all add: find_append_cases)

lemma find_map_concat_Some:
  assumes "find P (concat (map f cs)) = Some p"
  shows "\<exists>us k vs. cs = us @ k # vs \<and> (\<forall>u \<in> set us. find P (f u) = None) \<and> find P (f k) = Some p"
proof -
  obtain us' k' vs' where d: "map f cs = us' @ k' # vs'" "\<forall>u \<in> set us'. find P u = None" "find P k' = Some p"
    using find_concat_Some[OF assms] by blast
  from d(1) obtain us k vs where "cs = us @ k # vs" "us' = map f us" "k' = f k" "vs' = map f vs"
    by (auto simp: map_eq_append_conv map_eq_Cons_conv)
  then show ?thesis using d by auto
qed

lemma replaceChild_keeps:
  assumes "i \<notin> set (map nodeId (preorder x))"
  shows "(if nodeId x = i then w else replaceChild i w x) = x"
proof -
  have "nodeId x \<noteq> i" using assms self_in_preorder[of x] by auto
  moreover have "i \<notin> set (map nodeId (concat (map preorder (childNodes x))))"
    using assms by (subst (asm) preorder_unfold) simp
  ultimately show ?thesis by (simp add: replaceChild_absent)
qed

lemma findNode_self: "findNode (nodeId n) n = Some n"
  by (cases n) (simp_all add: findNode_def)

lemma withChildNodes_simps [simp]:
  "nodeId (withChildNodes p cs) = nodeId p"
  "nodeType (withChildNodes p cs) = nodeType p"
  "tagName (withChildNodes p cs) = tagName p"
  by (cases p; simp)+

lemma distinct_parts:
  "distinct (as @ bs @ cs) \<Longrightarrow> x \<in> set bs \<Longrightarrow> x \<notin> set as \<and> x \<notin> set cs"
  by auto

lemma forest_ids_subset:
  "x \<in> set xs \<Longrightarrow> set (map nodeId (preorder x)) \<subseteq> set (map nodeId (concat (map preorder xs)))"
  by auto

lemma parentNode_unfold:
  "parentNode i n =
     (if i \<in> set (map nodeId (childNodes n)) then Some n
      else find (\<lambda>p. i \<in> set (map nodeId (childNodes p))) (concat (map preorder (childNodes n))))"
  by (cases n) (simp_all add: parentNode_def)

lemma findNode_unfold:
  "findNode j n =
     (if nodeId n = j then Some n
      else find (\<lambda>x. nodeId x = j) (concat (map preorder (childNodes n))))"
  by (cases n) (simp_all add: findNode_def)

lemma replaceChild_parent:
  assumes "distinct (map nodeId (preorder n))"
    and "parentNode i n = Some p"
    and "childNodes p = xs @ c # ys"
    and "nodeId c = i"
  shows "findNode (nodeId p) (replaceChild i w n) = Some (withChildNodes p (xs @ w # ys))"
  using assms(1,2)
proof (induction n rule: node_children_induct)
  case (node n)
  let ?f = "\<lambda>c. if nodeId c = i then w else replaceChild i w c"
  let ?Q = "\<lambda>p. i \<in> set (map nodeId (childNodes p))"
  have dist: "distinct (map nodeId (concat (map preorder (childNodes n))))"
    and nid: "nodeId n \<notin> set (map nodeId (concat (map preorder (childNodes n))))"
    using node.prems(1) by (subst (asm) preorder_unfold, simp)+
  show ?case
  proof (cases "?Q n")
    case True
    then have "p = n"
      using node.prems(2) by (simp add: parentNode_unfold)
    then have kids: "childNodes n = xs @ c # ys" using assms(3) by simp
    have d2: "distinct (map nodeId (concat (map preorder xs)) @ map nodeId (preorder c)
                @ map nodeId (concat (map preorder ys)))"
      using dist kids by simp
    have cin: "i \<in> set (map nodeId (preorder c))"
      using assms(4) self_in_preorder[of c] by force
    have "?f x = x" if "x \<in> set xs \<or> x \<in> set ys" for x
    proof (rule replaceChild_keeps)
      have "set (map nodeId (preorder x)) \<subseteq>
              set (map nodeId (concat (map preorder xs))) \<union> set (map nodeId (concat (map preorder ys)))"
        using that forest_ids_subset by blast
      moreover have "i \<notin> set (map nodeId (concat (map preorder xs)))"
        "i \<notin> set (map nodeId (concat (map preorder ys)))"
        using distinct_parts[OF d2 cin] by blast+
      ultimately show "i \<notin> set (map nodeId (preorder x))" by blast
    qed
    then have "map ?f xs = xs" "map ?f ys = ys" by (simp_all add: map_idI)
    then have "map ?f (childNodes n) = xs @ w # ys"
      using kids assms(4) by simp
    then have "replaceChild i w n = withChildNodes n (xs @ w # ys)"
      by (cases n) (use kids in simp_all)
    then show ?thesis
      using \<open>p = n\<close> findNode_self[of "withChildNodes n (xs @ w # ys)"] by simp
  next
    case False
    then have "find ?Q (concat (map preorder (childNodes n))) = Some p"
      using node.prems(2) by (simp add: parentNode_unfold)
    then have "\<exists>us k vs. childNodes n = us @ k # vs
        \<and> (\<forall>u \<in> set us. find ?Q (preorder u) = None) \<and> find ?Q (preorder k) = Some p"
      by (rule find_map_concat_Some)
    then obtain us k vs where kids: "childNodes n = us @ k # vs"
      and us: "\<forall>u \<in> set us. find ?Q (preorder u) = None"
      and k: "find ?Q (preorder k) = Some p"
      by blast
    have pk: "p \<in> set (preorder k)" using k by (auto simp: find_Some_iff)
    then have ck: "c \<in> set (preorder k)" using children_closed assms(3) by simp
    have d2: "distinct (map nodeId (concat (map preorder us)) @ map nodeId (preorder k)
                @ map nodeId (concat (map preorder vs)))"
      using dist kids by simp
    have keep: "?f x = x" if "x \<in> set us \<or> x \<in> set vs" for x
    proof (rule replaceChild_keeps)
      have "set (map nodeId (preorder x)) \<subseteq>
              set (map nodeId (concat (map preorder us))) \<union> set (map nodeId (concat (map preorder vs)))"
        using that forest_ids_subset by blast
      moreover have "i \<in> set (map nodeId (preorder k))" using ck assms(4) by force
      then have "i \<notin> set (map nodeId (concat (map preorder us)))"
        "i \<notin> set (map nodeId (concat (map preorder vs)))"
        using distinct_parts[OF d2] by blast+
      ultimately show "i \<notin> set (map nodeId (preorder x))" by blast
    qed
    have "nodeId k \<noteq> i" using False kids by auto
    then have kids': "childNodes (replaceChild i w n) = us @ replaceChild i w k # vs"
      using keep kids by (simp add: replaceChild_children map_idI)
    have ih: "findNode (nodeId p) (replaceChild i w k) = Some (withChildNodes p (xs @ w # ys))"
    proof (rule node.IH)
      show "k \<in> set (childNodes n)" using kids by simp
      show "distinct (map nodeId (preorder k))" using d2 by simp
      show "parentNode i k = Some p" using k by (simp add: parentNode_def)
    qed
    have pid: "nodeId p \<in> set (map nodeId (preorder k))" using pk by simp
    have "nodeId p \<in> set (map nodeId (concat (map preorder (childNodes n))))"
      using pid forest_ids_subset[of k "childNodes n"] kids by auto
    then have "nodeId n \<noteq> nodeId p" using nid by auto
    moreover have "find (\<lambda>x. nodeId x = nodeId p) (concat (map preorder us)) = None"
    proof -
      have "nodeId p \<notin> set (map nodeId (concat (map preorder us)))"
        using distinct_parts[OF d2 pid] by blast
      then show ?thesis unfolding find_None_iff by (metis image_eqI set_map)
    qed
    ultimately show ?thesis
      using ih
      by (subst findNode_unfold) (simp add: kids' find_append_cases findNode_def del: replaceChild.simps)
  qed
qed

lemma same_id_same_node:
  "distinct (map nodeId (preorder r)) \<Longrightarrow> x \<in> set (preorder r) \<Longrightarrow> y \<in> set (preorder r) \<Longrightarrow>
     nodeId x = nodeId y \<Longrightarrow> x = y"
  by (meson distinct_map inj_onD)

lemma child_of_parent:
  assumes dist: "distinct (map nodeId (preorder r))"
    and leaf: "findNode l r = Some n"
    and par: "parentNode l r = Some p"
  shows "\<exists>xs ys. childNodes p = xs @ n # ys"
proof -
  have p: "p \<in> set (preorder r)" and "l \<in> set (map nodeId (childNodes p))"
    using parentNode_mem[OF par] by blast+
  then obtain c where c: "c \<in> set (childNodes p)" "nodeId c = l" by auto
  have "c \<in> set (preorder r)" using children_closed p c(1) by blast
  then have "c = n"
    using same_id_same_node[OF dist] findNode_mem[OF leaf] c(2) by blast
  then show ?thesis using c(1) by (simp add: split_list)
qed

lemma wrapHighlight_leaf:
  assumes dist: "distinct (map nodeId (preorder (root pg)))"
    and leaf: "findNode l (root pg) = Some (Text l d)"
    and par: "parentNode l (root pg) = Some p"
  shows "\<exists>xs ys pg'. childNodes p = xs @ Text l d # ys
           \<and> wrapHighlight pg (Some l) = Inr (pg', fresh pg)
           \<and> fresh pg' = Suc (Suc (fresh pg)) \<and> selectionItem pg' = selectionItem pg
           \<and> findNode (nodeId p) (root pg')
               = Some (withChildNodes p (xs @ highlightWrapper (fresh pg) (Text l d) # ys))"
proof -
  obtain xs ys where kids: "childNodes p = xs @ Text l d # ys"
    using child_of_parent[OF dist leaf par] by blast
  let ?w = "highlightWrapper (fresh pg) (Text l d)"
  let ?pg = "pg\<lparr>root := replaceChild l ?w (root pg), fresh := Suc (Suc (fresh pg))\<rparr>"
  have "wrapHighlight pg (Some l) = Inr (?pg, fresh pg)"
    using leaf par by (simp add: wrapHighlight_def highlightWrapper_def)
  moreover have "findNode (nodeId p) (root ?pg) = Some (withChildNodes p (xs @ ?w # ys))"
    using replaceChild_parent[OF dist par kids] by simp
  ultimately show ?thesis using kids by auto
qed

lemma withChildNodes_children:
  "nodeType p \<noteq> 3 \<Longrightarrow> childNodes (withChildNodes p cs) = cs"
  by (cases p) simp_all

lemma withChildNodes_text:
  "nodeType p \<noteq> 3 \<Longrightarrow> textContent (withChildNodes p cs) = concat (map textContent cs)"
  by (cases p) simp_all

lemma textContent_children_concat:
  "nodeType p \<noteq> 3 \<Longrightarrow> textContent p = concat (map textContent (childNodes p))"
  by (cases p) simp_all

lemma splitTextIn_id [simp]: "nodeId (splitTextIn i off new n) = nodeId n"
  by (cases n) simp_all

lemma splitTextIn_type [simp]: "nodeType (splitTextIn i off new n) = nodeType n"
  by (cases n) simp_all

lemma splitTextIn_children:
  "childNodes (splitTextIn i off new n) =
     concat (map (\<lambda>c. splitTextIn i off new c # splitSibling i off new c) (childNodes n))"
  by (cases n) simp_all

lemma split_forest_leaves:
  "(\<And>c. c \<in> set cs \<Longrightarrow>
      filter (\<lambda>x. nodeType x = 3) (concat (map preorder (splitTextIn i off new c # splitSibling i off new c)))
      = concat (map (splitLeaf i off new) (filter (\<lambda>x. nodeType x = 3) (preorder c)))) \<Longrightarrow>
   filter (\<lambda>x. nodeType x = 3)
     (concat (map preorder (concat (map (\<lambda>c. splitTextIn i off new c # splitSibling i off new c) cs))))
   = concat (map (splitLeaf i off new) (filter (\<lambda>x. nodeType x = 3) (concat (map preorder cs))))"
  by (induction cs) simp_all

lemma split_leaves:
  "filter (\<lambda>x. nodeType x = 3) (concat (map preorder (splitTextIn i off new n # splitSibling i off new n)))
   = concat (map (splitLeaf i off new) (filter (\<lambda>x. nodeType x = 3) (preorder n)))"
proof (induction n)
  case (Text k d)
  show ?case by simp
next
  case (Element j t cl s cs)
  show ?case using split_forest_leaves[of cs i off new] Element by simp
next
  case (Document j cs)
  show ?case using split_forest_leaves[of cs i off new] Document by simp
qed

lemma textLeaves_split:
  "nodeType n \<noteq> 3 \<Longrightarrow>
     textLeaves (splitTextIn i off new n) = concat (map (splitLeaf i off new) (textLeaves n))"
  using split_leaves[of i off new n] by (cases n) (simp_all add: textLeaves_def)

lemma split_forest_ids:
  "(\<And>c. c \<in> set cs \<Longrightarrow>
      map nodeId (concat (map preorder (splitTextIn i off new c # splitSibling i off new c)))
      = concat (map (splitIds i new) (preorder c))) \<Longrightarrow>
   map nodeId (concat (map preorder (concat (map (\<lambda>c. splitTextIn i off new c # splitSibling i off new c) cs))))
   = concat (map (splitIds i new) (concat (map preorder cs)))"
  by (induction cs) simp_all

lemma split_ids:
  "map nodeId (concat (map preorder (splitTextIn i off new n # splitSibling i off new n)))
   = concat (map (splitIds i new) (preorder n))"
proof (induction n)
  case (Text k d)
  show ?case by simp
next
  case (Element j t cl s cs)
  show ?case using split_forest_ids[of cs i off new] Element by simp
next
  case (Document j cs)
  show ?case using split_forest_ids[of cs i off new] Document by simp
qed

lemma preorder_ids_split:
  "nodeType n \<noteq> 3 \<Longrightarrow>
     map nodeId (preorder (splitTextIn i off new n)) = concat (map (splitIds i new) (preorder n))"
  using split_ids[of i off new n] by (cases n) simp_all

lemma splitIds_set: "set (splitIds i new x) \<subseteq> {nodeId x, new}"
  by (cases x) auto

lemma splitIds_other: "nodeId x \<noteq> i \<Longrightarrow> splitIds i new x = [nodeId x]"
  by (cases x) auto

lemma splitIds_absent:
  "\<forall>y \<in> set xs. nodeId y \<noteq> i \<Longrightarrow> concat (map (splitIds i new) xs) = map nodeId xs"
  by (induction xs) (simp_all add: splitIds_other)

lemma splitLeaf_other: "nodeId x \<noteq> i \<Longrightarrow> splitLeaf i off new x = [x]"
  by (cases x) auto

lemma splitLeaf_absent:
  "\<forall>y \<in> set xs. nodeId y \<noteq> i \<Longrightarrow> concat (map (splitLeaf i off new) xs) = xs"
  by (induction xs) (simp_all add: splitLeaf_other)

lemma splitIds_distinct:
  "distinct (map nodeId xs) \<Longrightarrow> new \<notin> set (map nodeId xs) \<Longrightarrow>
     distinct (concat (map (splitIds i new) xs))
     \<and> set (concat (map (splitIds i new) xs)) \<subseteq> insert new (set (map nodeId xs))"
proof (induction xs)
  case Nil
  show ?case by simp
next
  case (Cons x xs)
  then have ih: "distinct (concat (map (splitIds i new) xs))"
    "set (concat (map (splitIds i new) xs)) \<subseteq> insert new (set (map nodeId xs))"
    by simp_all
  show ?case
  proof (cases "nodeId x = i")
    case True
    then have "i \<notin> nodeId ` set xs" using Cons.prems(1) by simp
    then have "\<forall>y \<in> set xs. nodeId y \<noteq> i" by blast
    then have rest: "concat (map (splitIds i new) xs) = map nodeId xs"
      by (rule splitIds_absent)
    have "distinct (splitIds i new x)" "set (splitIds i new x) \<subseteq> {nodeId x, new}"
      using Cons.prems(2) by (cases x; auto)+
    then have "set (splitIds i new x) \<inter> set (map nodeId xs) = {}"
    proof -
      have "nodeId x \<notin> set (map nodeId xs)" "new \<notin> set (map nodeId xs)"
        using Cons.prems by simp_all
      then show ?thesis using \<open>set (splitIds i new x) \<subseteq> {nodeId x, new}\<close> by blast
    qed
    then have "distinct (splitIds i new x @ map nodeId xs)"
      using \<open>distinct (splitIds i new x)\<close> Cons.prems(1) by simp
    moreover have "set (splitIds i new x @ map nodeId xs) \<subseteq> insert new (set (map nodeId (x # xs)))"
      using \<open>set (splitIds i new x) \<subseteq> {nodeId x, new}\<close> by auto
    ultimately show ?thesis using rest by simp
  next
    case False
    then have "splitIds i new x = [nodeId x]" by (rule splitIds_other)
    then show ?thesis using ih Cons.prems by auto
  qed
qed

lemma wellFormed_splitText:
  assumes "wellFormed pg" and "splitText pg i off = Inr pg'"
  shows "wellFormed pg'"
proof -
  obtain k where pg': "pg' = pg\<lparr>root := splitTextIn i k (fresh pg) (root pg), fresh := Suc (fresh pg)\<rparr>"
    using assms(2) by (auto simp: splitText_def split: option.splits node.splits if_splits)
  have nt: "nodeType (root pg) \<noteq> 3" and dist: "distinct (map nodeId (preorder (root pg)))"
    and lt: "\<forall>n \<in> set (preorder (root pg)). nodeId n < fresh pg"
    using assms(1) by (simp_all add: wellFormed_def list_all_iff)
  have fr: "fresh pg \<notin> set (map nodeId (preorder (root pg)))" using lt by auto
  have ids: "map nodeId (preorder (root pg')) = concat (map (splitIds i (fresh pg)) (preorder (root pg)))"
    using nt by (simp add: pg' preorder_ids_split)
  have d: "distinct (map nodeId (preorder (root pg')))"
    and sub: "set (map nodeId (preorder (root pg'))) \<subseteq> insert (fresh pg) (set (map nodeId (preorder (root pg))))"
    using splitIds_distinct[OF dist fr, of i] ids by simp_all
  have "\<forall>n \<in> set (preorder (root pg')). nodeId n < fresh pg'"
  proof
    fix n assume "n \<in> set (preorder (root pg'))"
    then have "nodeId n \<in> insert (fresh pg) (set (map nodeId (preorder (root pg))))"
      using sub by auto
    then show "nodeId n < fresh pg'" using lt by (auto simp: pg')
  qed
  moreover have "nodeType (root pg') = 9" using assms(1) by (simp add: pg' wellFormed_def)
  ultimately show ?thesis using d by (simp add: wellFormed_def list_all_iff)
qed

lemma getSelectedNodes_loop_list:
  "getSelectedNodes_loop rng pg st w sel = collectList rng pg (concat (map preorder st)) w sel"
proof (induction rng pg st w sel rule: getSelectedNodes_loop.induct)
  case (1 rng pg w sel)
  show ?case by simp
next
  case (2 rng pg cur st w sel)
  have unf: "concat (map preorder (cur # st)) = cur # concat (map preorder (childNodes cur @ st))"
    using preorder_unfold[of cur] by simp
  show ?case
    unfolding unf using 2
    by (auto simp del: map_append concat_append split: sum.splits)
qed

lemma collectList_none:
  "startContainer rng = None \<Longrightarrow> endContainer rng = None \<Longrightarrow>
     collectList rng pg ns False sel = Inr (pg, sel)"
  by (induction ns) simp_all

lemma splitSibling_other: "nodeId c \<noteq> i \<Longrightarrow> splitSibling i off new c = []"
  by (cases c) simp_all

lemma concat_map_single:
  "(\<And>c. c \<in> set cs \<Longrightarrow> g c = [c]) \<Longrightarrow> concat (map g cs) = cs"
  by (induction cs) simp_all

lemma splitTextIn_absent:
  "i \<notin> set (map nodeId (preorder n)) \<Longrightarrow> splitTextIn i off new n = n"
proof (induction n rule: node_children_induct)
  case (node n)
  have "splitTextIn i off new c # splitSibling i off new c = [c]" if c: "c \<in> set (childNodes n)" for c
  proof -
    have "set (map nodeId (preorder c)) \<subseteq> set (map nodeId (preorder n))"
      using child_preorder_subset[OF c] by auto
    then have notin: "i \<notin> set (map nodeId (preorder c))" using node.prems by blast
    then have "nodeId c \<noteq> i" using self_in_preorder[of c] by auto
    then show ?thesis using node.IH[OF c notin] by (simp add: splitSibling_other)
  qed
  then have "concat (map (\<lambda>c. splitTextIn i off new c # splitSibling i off new c) (childNodes n))
      = childNodes n"
    by (rule concat_map_single)
  moreover have "nodeId n \<noteq> i" using node.prems self_in_preorder[of n] by auto
  ultimately show ?case by (cases n) simp_all
qed

lemma siblingAfter_found:
  "\<forall>x \<in> set xs. nodeId x \<noteq> i \<Longrightarrow> nodeId c = i \<Longrightarrow>
     siblingAfter i (xs @ c # d # rest) = Some (nodeId d)"
proof (induction xs)
  case Nil
  then show ?case by simp
next
  case (Cons x xs)
  then show ?case by (cases "xs @ c # d # rest") simp_all
qed

lemma no_parent_inside:
  assumes "i \<notin> set (map nodeId (preorder c))"
  shows "find (\<lambda>p. i \<in> set (map nodeId (childNodes p))) (preorder c) = None"
proof -
  have "i \<notin> set (map nodeId (childNodes p))" if "p \<in> set (preorder c)" for p
  proof
    assume "i \<in> set (map nodeId (childNodes p))"
    then obtain k where "k \<in> set (childNodes p)" "nodeId k = i" by auto
    then have "k \<in> set (preorder c)" using children_closed that by blast
    then show False using assms \<open>nodeId k = i\<close> by force
  qed
  then show ?thesis by (auto simp: find_None_iff)
qed

lemma find_forest_none:
  "(\<And>u. u \<in> set us \<Longrightarrow> find P (preorder u) = None) \<Longrightarrow>
     find P (concat (map preorder us)) = None"
  by (induction us) (simp_all add: find_append_cases)

lemma nextSibling_split:
  assumes "distinct (map nodeId (preorder n))"
    and "Text i d \<in> set (concat (map preorder (childNodes n)))"
  shows "nextSibling i (splitTextIn i off new n) = Some new"
  using assms
proof (induction n rule: node_children_induct)
  case (node n)
  let ?g = "\<lambda>c. splitTextIn i off new c # splitSibling i off new c"
  let ?Q = "\<lambda>p. i \<in> set (map nodeId (childNodes p))"
  let ?n' = "splitTextIn i off new n"
  have dist: "distinct (map nodeId (concat (map preorder (childNodes n))))"
    using node.prems(1) by (subst (asm) preorder_unfold) simp
  obtain k where k: "k \<in> set (childNodes n)" "Text i d \<in> set (preorder k)"
    using node.prems(2) by auto
  obtain us vs where kids: "childNodes n = us @ k # vs"
    using k(1) by (auto simp: in_set_conv_decomp)
  have d2: "distinct (map nodeId (concat (map preorder us)) @ map nodeId (preorder k)
              @ map nodeId (concat (map preorder vs)))"
    using dist kids by simp
  have ik: "i \<in> set (map nodeId (preorder k))" using k(2) by force
  have out: "i \<notin> set (map nodeId (preorder u))" if "u \<in> set us \<or> u \<in> set vs" for u
  proof -
    have "set (map nodeId (preorder u)) \<subseteq>
            set (map nodeId (concat (map preorder us))) \<union> set (map nodeId (concat (map preorder vs)))"
      using that forest_ids_subset by blast
    then show ?thesis using distinct_parts[OF d2 ik] by blast
  qed
  have keep: "?g u = [u]" if "u \<in> set us \<or> u \<in> set vs" for u
  proof -
    have "nodeId u \<noteq> i" using out[OF that] self_in_preorder[of u] by auto
    then show ?thesis using out[OF that] by (simp add: splitTextIn_absent splitSibling_other)
  qed
  have us: "concat (map ?g us) = us" and vs: "concat (map ?g vs) = vs"
    using keep by (simp_all add: concat_map_single)
  have usid: "\<forall>x \<in> set us. nodeId x \<noteq> i" "\<forall>x \<in> set vs. nodeId x \<noteq> i"
    using out self_in_preorder by force+
  show ?case
  proof (cases "k = Text i d")
    case True
    have kids': "childNodes ?n' = us @ Text i (take off d) # Text new (drop off d) # vs"
      using kids us vs True by (simp add: splitTextIn_children)
    then have "parentNode i ?n' = Some ?n'"
      by (subst parentNode_unfold) simp
    moreover have "siblingAfter i (childNodes ?n') = Some new"
      unfolding kids' using siblingAfter_found[OF usid(1), of "Text i (take off d)" "Text new (drop off d)" vs]
      by simp
    ultimately show ?thesis by (simp add: nextSibling_def)
  next
    case False
    have "distinct (map nodeId (preorder k))" using d2 by simp
    then have kid: "nodeId k \<noteq> i"
      using False k(2) self_in_preorder[of k] by (metis distinct_map inj_onD nodeId.simps(1))
    have inner: "Text i d \<in> set (concat (map preorder (childNodes k)))"
      using k(2) False by (subst (asm) preorder_unfold) simp
    have ih: "nextSibling i (splitTextIn i off new k) = Some new"
      using node.IH[OF k(1) \<open>distinct (map nodeId (preorder k))\<close> inner] .
    then obtain p' where p': "parentNode i (splitTextIn i off new k) = Some p'"
      by (auto simp: nextSibling_def split: option.splits)
    have kids': "childNodes ?n' = us @ splitTextIn i off new k # vs"
      using kids us vs kid by (simp add: splitTextIn_children splitSibling_other)
    have "i \<notin> set (map nodeId (childNodes ?n'))"
      unfolding kids' using usid kid by auto
    moreover have "find ?Q (concat (map preorder us)) = None"
      using out by (intro find_forest_none no_parent_inside) simp
    ultimately have "parentNode i ?n' = Some p'"
      using p' by (subst parentNode_unfold) (simp add: kids' find_append_cases parentNode_def)
    then show ?thesis using ih p' by (simp add: nextSibling_def)
  qed
qed

lemma textLeaves_subset: "set (textLeaves n) \<subseteq> set (preorder n)"
  by (auto simp: textLeaves_def)

lemma distinct_textLeaves:
  "distinct (map nodeId (preorder n)) \<Longrightarrow> distinct (map nodeId (textLeaves n))"
  unfolding textLeaves_def by (rule distinct_map_filter)

lemma findNode_leaf:
  assumes "distinct (map nodeId (preorder r))" and "Text i d \<in> set (textLeaves r)"
  shows "findNode i r = Some (Text i d)"
proof -
  have "Text i d \<in> set (preorder r)" using assms(2) textLeaves_subset by blast
  then show ?thesis using find_distinct_id[OF assms(1)] by (force simp: findNode_def)
qed

lemma leaf_of_findNode:
  "findNode i r = Some (Text k d) \<Longrightarrow> k = i \<and> Text i d \<in> set (textLeaves r)"
  using findNode_mem[of i r "Text k d"] by (auto simp: textLeaves_def)

lemma splitLeaf_at:
  assumes "distinct (map nodeId (A @ Text i d # B))"
  shows "concat (map (splitLeaf i off new) (A @ Text i d # B))
       = A @ Text i (take off d) # Text new (drop off d) # B"
proof -
  have "\<forall>x \<in> set A. nodeId x \<noteq> i" "\<forall>x \<in> set B. nodeId x \<noteq> i"
    using assms by force+
  then show ?thesis by (simp add: splitLeaf_absent)
qed

lemma splitText_leaf:
  assumes wf: "wellFormed pg"
    and leaves: "textLeaves (root pg) = A @ Text i d # B"
    and bounds: "0 \<le> off" "off \<le> int (length d)"
  shows "\<exists>pg'. splitText pg i off = Inr pg' \<and> wellFormed pg'
           \<and> fresh pg' = Suc (fresh pg) \<and> selectionItem pg' = selectionItem pg
           \<and> textLeaves (root pg')
               = A @ Text i (take (nat off) d) # Text (fresh pg) (drop (nat off) d) # B
           \<and> nextSibling i (root pg') = Some (fresh pg)"
proof -
  let ?pg = "pg\<lparr>root := splitTextIn i (nat off) (fresh pg) (root pg), fresh := Suc (fresh pg)\<rparr>"
  have dist: "distinct (map nodeId (preorder (root pg)))" and nt: "nodeType (root pg) = 9"
    using wf by (simp_all add: wellFormed_def)
  have mem: "Text i d \<in> set (textLeaves (root pg))" using leaves by simp
  have found: "findNode i (root pg) = Some (Text i d)" by (rule findNode_leaf[OF dist mem])
  have res: "splitText pg i off = Inr ?pg"
    using found bounds by (simp add: splitText_def unsignedLong_def)
  have dl: "distinct (map nodeId (A @ Text i d # B))"
    using distinct_textLeaves[OF dist] leaves by simp
  have "textLeaves (root ?pg)
      = concat (map (splitLeaf i (nat off) (fresh pg)) (textLeaves (root pg)))"
    using nt by (simp add: textLeaves_split)
  also have "\<dots> = A @ Text i (take (nat off) d) # Text (fresh pg) (drop (nat off) d) # B"
    unfolding leaves by (rule splitLeaf_at[OF dl])
  finally have tl: "textLeaves (root ?pg)
      = A @ Text i (take (nat off) d) # Text (fresh pg) (drop (nat off) d) # B" .
  have "Text i d \<in> set (preorder (root pg))" using mem textLeaves_subset by blast
  moreover have "Text i d \<noteq> root pg" using nt by (cases "root pg") simp_all
  ultimately have "Text i d \<in> set (concat (map preorder (childNodes (root pg))))"
    by (subst (asm) preorder_unfold) simp
  then have ns: "nextSibling i (root ?pg) = Some (fresh pg)"
    using nextSibling_split[OF dist] by simp
  have "wellFormed ?pg" using wellFormed_splitText[OF wf res] .
  then show ?thesis using res tl ns by auto
qed

lemma same_leaf_collect:
  assumes wf: "wellFormed pg"
    and leaves: "textLeaves (root pg) = A @ Text s c # B"
    and sc: "startContainer rng = Some s" and ec: "endContainer rng = Some s"
    and bounds: "0 \<le> startOffset rng" "startOffset rng \<le> endOffset rng" "endOffset rng \<le> int (length c)"
  shows "\<exists>pg'. getSelectedNodes pg rng = Inr (pg', [Some (fresh pg)]) \<and> wellFormed pg'
           \<and> selectionItem pg' = selectionItem pg
           \<and> textLeaves (root pg')
               = A @ Text s (take (nat (startOffset rng)) c)
                   # Text (fresh pg) (take (nat (endOffset rng - startOffset rng)) (drop (nat (startOffset rng)) c))
                   # Text (Suc (fresh pg)) (drop (nat (endOffset rng - startOffset rng)) (drop (nat (startOffset rng)) c))
                   # B"
proof -
  let ?so = "startOffset rng" and ?eo = "endOffset rng"
  have dist: "distinct (map nodeId (preorder (root pg)))"
    using wf by (simp add: wellFormed_def)
  have "findNode s (root pg) = Some (Text s c)"
    using findNode_leaf[OF dist] leaves by simp
  then have same: "getSelectedNodes pg rng = getNodesIfSameStartEnd pg rng"
    using sc ec by (simp add: getSelectedNodes_def instanceofText_def)
  obtain pg1 where s1: "splitText pg s ?so = Inr pg1" and wf1: "wellFormed pg1"
    and fr1: "fresh pg1 = Suc (fresh pg)" and st1: "selectionItem pg1 = selectionItem pg"
    and tl1: "textLeaves (root pg1)
               = A @ Text s (take (nat ?so) c) # Text (fresh pg) (drop (nat ?so) c) # B"
    and ns1: "nextSibling s (root pg1) = Some (fresh pg)"
    using splitText_leaf[OF wf leaves bounds(1)] bounds by force
  have tl1': "textLeaves (root pg1)
               = (A @ [Text s (take (nat ?so) c)]) @ Text (fresh pg) (drop (nat ?so) c) # B"
    using tl1 by simp
  have b2: "0 \<le> ?eo - ?so" "?eo - ?so \<le> int (length (drop (nat ?so) c))"
    using bounds by simp_all
  obtain pg2 where s2: "splitText pg1 (fresh pg) (?eo - ?so) = Inr pg2" and wf2: "wellFormed pg2"
    and st2: "selectionItem pg2 = selectionItem pg1"
    and tl2: "textLeaves (root pg2)
               = (A @ [Text s (take (nat ?so) c)])
                   @ Text (fresh pg) (take (nat (?eo - ?so)) (drop (nat ?so) c))
                   # Text (fresh pg1) (drop (nat (?eo - ?so)) (drop (nat ?so) c)) # B"
    using splitText_leaf[OF wf1 tl1' b2] by blast
  have "getNodesIfSameStartEnd pg rng = Inr (pg2, [Some (fresh pg)])"
    using sc s1 ns1 s2 by (simp add: getNodesIfSameStartEnd_def)
  then show ?thesis using same wf2 st1 st2 tl2 fr1 by simp
qed









lemma textLeaves_decomp:
  "preorder r = A @ Text i d # B \<Longrightarrow>
     textLeaves r = filter (\<lambda>x. nodeType x = 3) A @ Text i d # filter (\<lambda>x. nodeType x = 3) B"
  by (simp add: textLeaves_def)






lemma same_leaf_general:
  assumes wf: "wellFormed pg"
    and fs: "findNode s (root pg) = Some (Text s c)"
    and sc: "startContainer rng = Some s" and ec: "endContainer rng = Some s"
    and bounds: "0 \<le> startOffset rng" "startOffset rng \<le> endOffset rng" "endOffset rng \<le> int (length c)"
  shows "\<exists>pg'. getSelectedNodes pg rng = Inr (pg', [Some (fresh pg)])
           \<and> findNode (fresh pg) (root pg')
               = Some (Text (fresh pg)
                   (take (nat (endOffset rng - startOffset rng)) (drop (nat (startOffset rng)) c)))"
proof -
  let ?t = "filter (\<lambda>x. nodeType x = 3)"
  let ?mid = "Text (fresh pg) (take (nat (endOffset rng - startOffset rng)) (drop (nat (startOffset rng)) c))"
  obtain A B where pre: "preorder (root pg) = A @ Text s c # B"
    using findNode_mem[OF fs] by (auto simp: in_set_conv_decomp)
  obtain pg' where res: "getSelectedNodes pg rng = Inr (pg', [Some (fresh pg)])"
    and wf': "wellFormed pg'"
    and tl: "textLeaves (root pg')
               = ?t A @ Text s (take (nat (startOffset rng)) c) # ?mid
                   # Text (Suc (fresh pg)) (drop (nat (endOffset rng - startOffset rng)) (drop (nat (startOffset rng)) c))
                   # ?t B"
    using same_leaf_collect[OF wf textLeaves_decomp[OF pre] sc ec bounds] by blast
  have "?mid \<in> set (textLeaves (root pg'))" using tl by simp
  moreover have "distinct (map nodeId (preorder (root pg')))"
    using wf' by (simp add: wellFormed_def)
  ultimately have "findNode (fresh pg) (root pg') = Some ?mid"
    by (intro findNode_leaf)
  then show ?thesis using res by blast
qed

lemma split_keeps_subtree:
  "n \<in> set (preorder r) \<Longrightarrow> i \<notin> set (map nodeId (preorder n)) \<Longrightarrow>
     n \<in> set (preorder (splitTextIn i off new r))"
proof (induction r rule: node_children_induct)
  case (node r)
  show ?case
  proof (cases "n = r")
    case True
    then show ?thesis using node.prems(2) self_in_preorder by (simp add: splitTextIn_absent)
  next
    case False
    then obtain c where c: "c \<in> set (childNodes r)" "n \<in> set (preorder c)"
      using node.prems(1) by (subst (asm) preorder_unfold) auto
    then have "n \<in> set (preorder (splitTextIn i off new c))"
      using node.IH node.prems(2) by blast
    moreover have "splitTextIn i off new c \<in> set (childNodes (splitTextIn i off new r))"
      using c(1) by (auto simp: splitTextIn_children)
    ultimately show ?thesis using child_preorder_subset by blast
  qed
qed

lemma stackLive_pop:
  assumes "stackLive pg (cur # st)"
  shows "findNode (nodeId cur) (root pg) = Some cur" and "stackLive pg (childNodes cur @ st)"
proof -
  have wf: "wellFormed pg" and d: "distinct (map nodeId (concat (map preorder (cur # st))))"
    and mem: "cur \<in> set (preorder (root pg))" "\<forall>n \<in> set st. n \<in> set (preorder (root pg))"
    using assms by (simp_all add: stackLive_def list_all_iff)
  have dist: "distinct (map nodeId (preorder (root pg)))" using wf by (simp add: wellFormed_def)
  show "findNode (nodeId cur) (root pg) = Some cur"
    using find_distinct_id[OF dist mem(1)] by (simp add: findNode_def)
  have "concat (map preorder (cur # st)) = cur # concat (map preorder (childNodes cur @ st))"
    using preorder_unfold[of cur] by simp
  then have "distinct (map nodeId (concat (map preorder (childNodes cur @ st))))"
    using d by (simp del: map_append concat_append)
  moreover have "\<forall>n \<in> set (childNodes cur). n \<in> set (preorder (root pg))"
    using children_closed mem(1) by blast
  then have "\<forall>n \<in> set (childNodes cur @ st). n \<in> set (preorder (root pg))"
    using mem(2) by auto
  ultimately show "stackLive pg (childNodes cur @ st)"
    using wf unfolding stackLive_def list_all_iff by blast
qed

lemma stackLive_split:
  assumes live: "stackLive pg (cur # st)" and istext: "nodeType cur = 3"
    and split: "splitText pg (nodeId cur) off = Inr pg1"
  shows "stackLive pg1 (childNodes cur @ st)"
proof -
  have wf: "wellFormed pg" and d: "distinct (map nodeId (concat (map preorder (cur # st))))"
    and mem: "\<forall>n \<in> set st. n \<in> set (preorder (root pg))"
    using live by (simp_all add: stackLive_def list_all_iff)
  obtain i dt where cur: "cur = Text i dt" using istext by (cases cur) simp_all
  obtain k where pg1: "pg1 = pg\<lparr>root := splitTextIn i k (fresh pg) (root pg), fresh := Suc (fresh pg)\<rparr>"
    using split cur by (auto simp: splitText_def split: option.splits node.splits if_splits)
  have d': "distinct (i # map nodeId (concat (map preorder st)))" using d cur by simp
  have "n \<in> set (preorder (root pg1))" if n: "n \<in> set st" for n
  proof -
    have "i \<notin> set (map nodeId (concat (map preorder st)))" using d' by simp
    then have "i \<notin> set (map nodeId (preorder n))" using forest_ids_subset[OF n] by blast
    then show ?thesis using mem n by (simp add: pg1 split_keeps_subtree)
  qed
  moreover have "wellFormed pg1" using wellFormed_splitText[OF wf split] .
  ultimately show ?thesis using d' cur by (simp add: stackLive_def list_all_iff)
qed

lemma getSelectedNodes_refs_loop:
  "stackLive pg st \<Longrightarrow>
     getSelectedNodes_refs rng pg (map nodeId st) w sel = Some (getSelectedNodes_loop rng pg st w sel)"
proof (induction rng pg st w sel rule: getSelectedNodes_loop.induct)
  case (1 rng pg w sel)
  show ?case by (subst getSelectedNodes_refs.simps) simp
next
  case (2 rng pg cur st w sel)
  note found = stackLive_pop(1)[OF "2.prems"] and live = stackLive_pop(2)[OF "2.prems"]
  show ?case
  proof (cases "Some (nodeId cur) = startContainer rng")
    case True
    show ?thesis
    proof (cases "nodeType cur = 3")
      case istext: True
      show ?thesis
      proof (cases "splitText pg (nodeId cur) (startOffset rng)")
        case (Inl e)
        then show ?thesis using True istext found
          by (subst getSelectedNodes_refs.simps) simp
      next
        case (Inr pg1)
        have "stackLive pg1 (childNodes cur @ st)"
          using stackLive_split[OF "2.prems" istext Inr] .
        then show ?thesis using True istext found Inr "2.IH"(1)[OF True istext Inr]
          by (subst getSelectedNodes_refs.simps) simp
      qed
    next
      case False
      then show ?thesis using True found live "2.IH"(2)[OF True False]
        by (subst getSelectedNodes_refs.simps) simp
    qed
  next
    case nostart: False
    show ?thesis
    proof (cases "Some (nodeId cur) = endContainer rng")
      case True
      then show ?thesis using nostart found
        by (subst getSelectedNodes_refs.simps) (simp split: sum.splits)
    next
      case False
      show ?thesis
      proof (cases "w \<and> nodeType cur = 3")
        case True
        then show ?thesis using nostart False found live "2.IH"(3)[OF nostart False True]
          by (subst getSelectedNodes_refs.simps) simp
      next
        case nw: False
        then show ?thesis using nostart False found live "2.IH"(4)[OF nostart False nw]
          by (subst getSelectedNodes_refs.simps) auto
      qed
    qed
  qed
qed

lemma getSelectedNodes_refs_root:
  assumes "wellFormed pg"
  shows "getSelectedNodes_refs rng pg [nodeId (root pg)] False []
       = Some (getSelectedNodes_loop rng pg [root pg] False [])"
proof -
  have "stackLive pg [root pg]"
    using assms self_in_preorder by (simp add: stackLive_def wellFormed_def)
  then show ?thesis using getSelectedNodes_refs_loop[of pg "[root pg]"] by simp
qed

section \<open>The claims\<close>

subsection \<open>The reconstructed range\<close>

text \<open>
  C6. For a stored pair of addresses, the range that \<^verbatim>\<open>restoreSelectedNodes\<close> builds has
  as start offset the offset decoded from the start address, unchanged, and as end offset
  the offset decoded from the end address plus the \<^verbatim>\<open>textNodeLength\<close> stored in the end
  address; the containers are the decoded nodes.
\<close>

theorem restoreSelectedNodes_offsets:
  "\<exists>rng. restoreSelectedNodes pg (startSelectedNode # endSelectNode # rest) = Inr rng
     \<and> startContainer rng = fst (restoreContainer pg startSelectedNode)
     \<and> startOffset rng = snd (restoreContainer pg startSelectedNode)
     \<and> endContainer rng = fst (restoreContainer pg endSelectNode)
     \<and> endOffset rng = snd (restoreContainer pg endSelectNode) + textNodeLength endSelectNode"
  by (simp add: restoreSelectedNodes_def)

subsection \<open>Collapsed selections\<close>

text \<open>
  C7. When the live selection is collapsed (its start position equals its end position),
  the mouseup handler does nothing: the page it leaves is the page it found, so the
  persisted slot is not written and the document is not changed.
\<close>

theorem mouseup_collapsed:
  assumes "startContainer rng = endContainer rng" and "startOffset rng = endOffset rng"
  shows "mouseup pg (getSelection rng) = Inr pg"
  using assms by (simp add: mouseup_def getSelection_def)

theorem mouseup_collapsed_witness:
  "mouseup \<lparr>root = Document 0 [Element 1 ''p'' [] [] [Text 2 ''Hello'']], fresh = 3, selectionItem = None\<rparr>
     (getSelection \<lparr>startContainer = Some 2, startOffset = 1, endContainer = Some 2, endOffset = 1\<rparr>)
   = Inr \<lparr>root = Document 0 [Element 1 ''p'' [] [] [Text 2 ''Hello'']], fresh = 3, selectionItem = None\<rparr>"
  by (rule mouseup_collapsed) simp_all

subsection \<open>The offset of a leaf that is not there\<close>

text \<open>
  C5, as amended. \<^verbatim>\<open>getTextNodeOffset\<close> has no failure: when the ancestor does not
  contain the target leaf, the traversal runs to its end and the function returns a
  number, the total length of the text below the ancestor.
\<close>

theorem getTextNodeOffset_absent:
  assumes "findNode t ancestor = None"
  shows "getTextNodeOffset ancestor t = int (length (textContent ancestor))"
proof -
  have "\<forall>x \<in> set (preorder ancestor). nodeId x \<noteq> t"
    using assms by (auto simp: findNode_def find_None_iff)
  then have eq: "takeWhile (\<lambda>x. nodeId x \<noteq> t) (filter (\<lambda>x. nodeType x = 3) (preorder ancestor))
      = filter (\<lambda>x. nodeType x = 3) (preorder ancestor)"
    by (intro takeWhile_eq_all_conv[THEN iffD2]) auto
  show ?thesis
    unfolding getTextNodeOffset_def getTextNodeOffset_loop_list
    by (simp add: eq textContent_leaves[symmetric])
qed

theorem getTextNodeOffset_absent_witness:
  "getTextNodeOffset (Element 3 ''b'' [] [] [Text 4 ''c'']) 5
     = int (length (textContent (Element 3 ''b'' [] [] [Text 4 ''c''])))"
proof -
  have h: "findNode 5 (Element 3 ''b'' [] [] [Text 4 ''c'']) = None" by code_simp
  show ?thesis by (rule getTextNodeOffset_absent [OF h])
qed

text \<open>
  C5 as stated fails: the element \<^verbatim>\<open><b>c</b>\<close> of \<^verbatim>\<open><p>ab<b>c</b>de</p>\<close> does not
  contain the leaf \<^verbatim>\<open>de\<close> of the same document, and asking for the offset of that leaf
  below it returns 1.
\<close>

theorem getTextNodeOffset_returns_counterexample:
  "findNode 5 (root inlinePage) = Some (Text 5 ''de'')
   \<and> findNode 5 (Element 3 ''b'' [] [] [Text 4 ''c'']) = None
   \<and> getTextNodeOffset (Element 3 ''b'' [] [] [Text 4 ''c'']) 5 = 1"
  by code_simp

subsection \<open>Decoding an offset that falls on the end of a leaf\<close>

text \<open>
  C9, as amended. When the element of the address is found and \<^verbatim>\<open>textNodeOffset\<close> equals
  the cumulative length of its text leaves up to and including a non-empty leaf \<open>T\<close>,
  \<^verbatim>\<open>restoreContainer\<close> stops at \<open>T\<close> and returns \<open>T\<close> with the length of \<open>T\<close> as offset.
\<close>

theorem restoreContainer_end_of_leaf:
  assumes found: "item (getElementsByTagName (root pg) (parentTagName a)) (parentIndex a) = Some parent"
    and leaves: "textLeaves parent = before @ Text i d # after"
    and off: "textNodeOffset a = int (length (concat (map textContent before)) + length d)"
    and nonempty: "d \<noteq> []"
  shows "restoreContainer pg a = (Some i, int (length d))"
proof -
  have "restoreContainer_loop (textNodeOffset a) [parent] 0 0
      = decodeLeaves (textNodeOffset a) (before @ Text i d # after) 0 0"
    using leaves by (simp add: restoreContainer_loop_list textLeaves_def)
  also have "\<dots> = (Some (nodeId (Text i d)), int (length (textContent (Text i d))))"
    by (rule decodeLeaves_stop) (use off nonempty in simp_all)
  finally show ?thesis
    using found by (simp add: restoreContainer_def)
qed

theorem restoreContainer_end_of_leaf_witness:
  "restoreContainer inlinePage
     \<lparr>parentTagName = ''p'', parentIndex = 0, textNodeOffset = 3, textNodeLength = 2\<rparr>
   = (Some 4, int (length ''c''))"
proof -
  let ?a = "\<lparr>parentTagName = ''p'', parentIndex = 0, textNodeOffset = 3, textNodeLength = 2\<rparr>"
  let ?p = "Element 1 ''p'' [] [] [Text 2 ''ab'', Element 3 ''b'' [] [] [Text 4 ''c''], Text 5 ''de'']"
  have h1: "item (getElementsByTagName (root inlinePage) (parentTagName ?a)) (parentIndex ?a) = Some ?p"
    by code_simp
  have h2: "textLeaves ?p = [Text 2 ''ab''] @ Text 4 ''c'' # [Text 5 ''de'']"
    by code_simp
  have h3: "textNodeOffset ?a = int (length (concat (map textContent [Text 2 ''ab''])) + length ''c'')"
    by simp
  have h4: "''c'' \<noteq> []" by simp
  show ?thesis by (rule restoreContainer_end_of_leaf [OF h1 h2 h3 h4])
qed

text \<open>
  C9 as stated fails when the leaf \<open>T\<close> is empty: in a paragraph with the text nodes
  \<^verbatim>\<open>ab\<close>, an empty one and \<^verbatim>\<open>cd\<close>, the offset 2 is the cumulative length up to and
  including the empty leaf, and the loop has already stopped at the leaf \<^verbatim>\<open>ab\<close> before it.
\<close>

theorem restoreContainer_empty_leaf_counterexample:
  "item (getElementsByTagName (root emptyLeafPage) ''p'') 0
     = Some (Element 1 ''p'' [] [] [Text 2 ''ab'', Text 3 [], Text 4 ''cd''])
   \<and> textLeaves (Element 1 ''p'' [] [] [Text 2 ''ab'', Text 3 [], Text 4 ''cd''])
       = [Text 2 ''ab''] @ Text 3 [] # [Text 4 ''cd'']
   \<and> (2::int) = int (length (concat (map textContent [Text 2 ''ab''])) + length (textContent (Text 3 [])))
   \<and> restoreContainer emptyLeafPage
         \<lparr>parentTagName = ''p'', parentIndex = 0, textNodeOffset = 2, textNodeLength = 2\<rparr>
       = (Some 2, 2)
   \<and> restoreContainer emptyLeafPage
         \<lparr>parentTagName = ''p'', parentIndex = 0, textNodeOffset = 2, textNodeLength = 2\<rparr>
       \<noteq> (Some 3, int (length (textContent (Text 3 []))))"
  by code_simp

subsection \<open>Encoding a leaf and decoding the address\<close>

text \<open>
  C2. For every text leaf \<open>L\<close> of an unmodified tree, decoding the address that
  \<^verbatim>\<open>getSelectedTextNodePosition\<close> produces for \<open>L\<close> should give back \<open>L\<close>, with the offset
  of the start of \<open>L\<close> within the text of its parent. The source does not do this for a
  leaf that follows other text under its parent. The stop test of \<^verbatim>\<open>restoreContainer\<close> is
  \<^verbatim>\<open>currentOffset >= textNodeOffset\<close>, where the comment above it speaks of the searched
  length exceeding the offset, so the loop stops one leaf early. In
  \<^verbatim>\<open><p>ab<b>c</b>de</p>\<close> the leaf \<^verbatim>\<open>de\<close> is encoded with offset 3, and the address is
  decoded to the leaf \<^verbatim>\<open>c\<close> with offset 1. The pair that the mouseup handler itself
  stores for a selection of the first character of \<^verbatim>\<open>de\<close> then makes the restore at the
  next load of the same document raise \<^verbatim>\<open>IndexSizeError\<close>.
\<close>

theorem codec_roundtrip_stops_one_leaf_early:
  "wellFormed inlinePage
   \<and> findNode 5 (root inlinePage) = Some (Text 5 ''de'')
   \<and> getSelectedTextNodePosition inlinePage (Some 5)
       = Inr \<lparr>parentTagName = ''p'', parentIndex = 0, textNodeOffset = 3, textNodeLength = 2\<rparr>
   \<and> restoreContainer inlinePage
         \<lparr>parentTagName = ''p'', parentIndex = 0, textNodeOffset = 3, textNodeLength = 2\<rparr>
       = (Some 4, 1)
   \<and> mouseup inlinePage (getSelection afterSiblingRange)
       = Inr \<lparr>root = Document 0 [Element 1 ''p'' [] []
                  [Text 2 ''ab'', Element 3 ''b'' [] [] [Text 4 ''c''], Text 5 [],
                   Element 8 ''span'' [] [(''backgroundColor'', ''yellow'')] [Text 9 ''d''],
                   Text 7 ''e'']],
              fresh = 10, selectionItem = Some afterSiblingStored\<rparr>
   \<and> restoreAtLoad (inlinePage\<lparr>selectionItem := Some afterSiblingStored\<rparr>) = Inl IndexSizeError"
  by code_simp

subsection \<open>Wrapping a leaf\<close>

text \<open>
  C8, as amended. In a well-formed page, for a text leaf with a parent, \<^verbatim>\<open>wrapHighlight\<close>
  creates a new element (its identity is not in the document before), a \<^verbatim>\<open>span\<close> with
  no class name and the fixed inline style \<^verbatim>\<open>backgroundColor: yellow\<close>, whose only child is
  a new text node with the data of the leaf, and the parent's child sequence afterwards
  is the one before with the wrapper in the place of the leaf: the siblings before and
  after it are the same nodes in the same order.
\<close>

theorem wrapHighlight_replaces_leaf:
  assumes "wellFormed pg"
    and "findNode l (root pg) = Some (Text l d)"
    and "parentNode l (root pg) = Some p"
  shows "\<exists>xs ys pg'. childNodes p = xs @ Text l d # ys
           \<and> wrapHighlight pg (Some l) = Inr (pg', fresh pg)
           \<and> findNode (fresh pg) (root pg) = None
           \<and> findNode (nodeId p) (root pg')
               = Some (withChildNodes p
                   (xs @ Element (fresh pg) ''span'' [] [(''backgroundColor'', ''yellow'')]
                           [Text (Suc (fresh pg)) d] # ys))"
proof -
  have dist: "distinct (map nodeId (preorder (root pg)))"
    using assms(1) by (simp add: wellFormed_def)
  have "\<forall>n \<in> set (preorder (root pg)). nodeId n \<noteq> fresh pg"
    using assms(1) by (auto simp: wellFormed_def list_all_iff)
  then have "findNode (fresh pg) (root pg) = None"
    by (auto simp: findNode_def find_None_iff)
  then show ?thesis
    using wrapHighlight_leaf[OF dist assms(2,3)] by (auto simp: highlightWrapper_def)
qed

theorem wrapHighlight_replaces_leaf_witness:
  "\<exists>xs ys pg'. childNodes (Element 3 ''p'' [] [] [Text 4 ''Hello'']) = xs @ Text 4 ''Hello'' # ys
           \<and> wrapHighlight scenarioPage (Some 4) = Inr (pg', fresh scenarioPage)
           \<and> findNode (fresh scenarioPage) (root scenarioPage) = None
           \<and> findNode (nodeId (Element 3 ''p'' [] [] [Text 4 ''Hello''])) (root pg')
               = Some (withChildNodes (Element 3 ''p'' [] [] [Text 4 ''Hello''])
                   (xs @ Element (fresh scenarioPage) ''span'' [] [(''backgroundColor'', ''yellow'')]
                           [Text (Suc (fresh scenarioPage)) ''Hello''] # ys))"
proof -
  have h1: "wellFormed scenarioPage" by code_simp
  have h2: "findNode 4 (root scenarioPage) = Some (Text 4 ''Hello'')" by code_simp
  have h3: "parentNode 4 (root scenarioPage) = Some (Element 3 ''p'' [] [] [Text 4 ''Hello''])"
    by code_simp
  show ?thesis by (rule wrapHighlight_replaces_leaf [OF h1 h2 h3])
qed

text \<open>
  C8 as stated fails in what the wrapper carries: \<^verbatim>\<open>wrapHighlight\<close> takes no style from
  anyone. The default options supply the class name \<^verbatim>\<open>highlight-mengshou-wrap\<close>; the
  wrapper made for the leaf \<^verbatim>\<open>Hello\<close> has no class name, and its style is the constant
  the function writes.
\<close>

theorem wrapHighlight_style_counterexample:
  "styleClassName getDefaultOptions = ''highlight-mengshou-wrap''
   \<and> wrapHighlight scenarioPage (Some 4)
       = Inr (\<lparr>root = Document 0 [Element 1 ''html'' [] [] [Element 2 ''body'' [] []
                   [Element 3 ''p'' [] []
                      [Element 7 ''span'' [] [(''backgroundColor'', ''yellow'')] [Text 8 ''Hello'']],
                    Element 5 ''p'' [] [] [Text 6 ''World'']]]],
               fresh = 9, selectionItem = None\<rparr>, 7)
   \<and> className (Element 7 ''span'' [] [(''backgroundColor'', ''yellow'')] [Text 8 ''Hello'']) = []
   \<and> className (Element 7 ''span'' [] [(''backgroundColor'', ''yellow'')] [Text 8 ''Hello''])
       \<noteq> styleClassName getDefaultOptions
   \<and> inlineStyle (Element 7 ''span'' [] [(''backgroundColor'', ''yellow'')] [Text 8 ''Hello''])
       = [(''backgroundColor'', ''yellow'')]"
  by code_simp

text \<open>
  C10. In a well-formed page, for a text leaf with a parent element, after
  \<^verbatim>\<open>wrapHighlight\<close> the parent has as many children as before and the same text content;
  the wrapper stands at the index the leaf had, and its child, the copy, carries the whole
  data of the leaf.
\<close>

theorem wrapHighlight_preserves_parent:
  assumes "wellFormed pg"
    and "findNode l (root pg) = Some (Text l d)"
    and "parentElement l (root pg) = Some p"
  shows "\<exists>pg' p' k. wrapHighlight pg (Some l) = Inr (pg', fresh pg)
           \<and> findNode (nodeId p) (root pg') = Some p'
           \<and> length (childNodes p') = length (childNodes p)
           \<and> textContent p' = textContent p
           \<and> k < length (childNodes p)
           \<and> childNodes p ! k = Text l d
           \<and> nodeId (childNodes p' ! k) = fresh pg
           \<and> childNodes (childNodes p' ! k) = [Text (Suc (fresh pg)) d]"
proof -
  have dist: "distinct (map nodeId (preorder (root pg)))"
    using assms(1) by (simp add: wellFormed_def)
  have par: "parentNode l (root pg) = Some p" and el: "isElement p"
    using parentElement_cases[OF assms(3)] by blast+
  then have nt: "nodeType p \<noteq> 3" by (cases p) simp_all
  obtain xs ys pg' where kids: "childNodes p = xs @ Text l d # ys"
    and res: "wrapHighlight pg (Some l) = Inr (pg', fresh pg)"
    and found: "findNode (nodeId p) (root pg')
               = Some (withChildNodes p (xs @ highlightWrapper (fresh pg) (Text l d) # ys))"
    using wrapHighlight_leaf[OF dist assms(2) par] by blast
  let ?p' = "withChildNodes p (xs @ highlightWrapper (fresh pg) (Text l d) # ys)"
  have kids': "childNodes ?p' = xs @ highlightWrapper (fresh pg) (Text l d) # ys"
    using nt by (rule withChildNodes_children)
  have "length (childNodes ?p') = length (childNodes p)"
    using kids kids' by simp
  moreover have "textContent ?p' = textContent p"
    using nt kids
    by (simp add: withChildNodes_children textContent_children_concat highlightWrapper_def)
  moreover have "length xs < length (childNodes p)" "childNodes p ! length xs = Text l d"
    using kids by simp_all
  moreover have "nodeId (childNodes ?p' ! length xs) = fresh pg"
    "childNodes (childNodes ?p' ! length xs) = [Text (Suc (fresh pg)) d]"
    using kids' by (simp_all add: highlightWrapper_def)
  ultimately show ?thesis using res found by blast
qed

theorem wrapHighlight_preserves_parent_witness:
  "\<exists>pg' p' k. wrapHighlight scenarioPage (Some 6) = Inr (pg', fresh scenarioPage)
           \<and> findNode (nodeId (Element 5 ''p'' [] [] [Text 6 ''World''])) (root pg') = Some p'
           \<and> length (childNodes p') = length (childNodes (Element 5 ''p'' [] [] [Text 6 ''World'']))
           \<and> textContent p' = textContent (Element 5 ''p'' [] [] [Text 6 ''World''])
           \<and> k < length (childNodes (Element 5 ''p'' [] [] [Text 6 ''World'']))
           \<and> childNodes (Element 5 ''p'' [] [] [Text 6 ''World'']) ! k = Text 6 ''World''
           \<and> nodeId (childNodes p' ! k) = fresh scenarioPage
           \<and> childNodes (childNodes p' ! k) = [Text (Suc (fresh scenarioPage)) ''World'']"
proof -
  have h1: "wellFormed scenarioPage" by code_simp
  have h2: "findNode 6 (root scenarioPage) = Some (Text 6 ''World'')" by code_simp
  have h3: "parentElement 6 (root scenarioPage) = Some (Element 5 ''p'' [] [] [Text 6 ''World''])"
    by code_simp
  show ?thesis by (rule wrapHighlight_preserves_parent [OF h1 h2 h3])
qed

subsection \<open>Restoring when the element of an address is not found\<close>

text \<open>
  C4, as amended. When the indexed element lookup finds no element for either of the two
  stored addresses, the restore at load raises nothing and leaves the page as it was: no
  leaf is split and none is wrapped.
\<close>

theorem restoreAtLoad_both_missing:
  assumes "selectionItem pg = Some (a # b # rest)"
    and "item (getElementsByTagName (root pg) (parentTagName a)) (parentIndex a) = None"
    and "item (getElementsByTagName (root pg) (parentTagName b)) (parentIndex b) = None"
  shows "restoreAtLoad pg = Inr pg"
proof -
  have "restoreContainer pg a = (None, 0)" "restoreContainer pg b = (None, 0)"
    using assms(2,3) by (simp_all add: restoreContainer_def)
  then have rng: "restoreSelectedNodes pg (a # b # rest)
      = Inr \<lparr>startContainer = None, startOffset = 0, endContainer = None, endOffset = 0 + textNodeLength b\<rparr>"
    by (simp add: restoreSelectedNodes_def)
  have "getSelectedNodes pg \<lparr>startContainer = None, startOffset = 0, endContainer = None,
            endOffset = 0 + textNodeLength b\<rparr> = Inr (pg, [])"
    by (simp add: getSelectedNodes_def instanceofText_def getSelectedNodes_loop_list collectList_none)
  then show ?thesis using assms(1) rng by (simp add: restoreAtLoad_def)
qed

theorem restoreAtLoad_both_missing_witness:
  "restoreAtLoad bothMissingPage = Inr bothMissingPage"
proof -
  let ?a = "\<lparr>parentTagName = ''p'', parentIndex = 7, textNodeOffset = 3, textNodeLength = 2\<rparr>"
  let ?b = "\<lparr>parentTagName = ''p'', parentIndex = 2, textNodeOffset = 0, textNodeLength = 3\<rparr>"
  have h1: "selectionItem bothMissingPage = Some (?a # ?b # [])" by code_simp
  have h2: "item (getElementsByTagName (root bothMissingPage) (parentTagName ?a)) (parentIndex ?a) = None"
    by code_simp
  have h3: "item (getElementsByTagName (root bothMissingPage) (parentTagName ?b)) (parentIndex ?b) = None"
    by code_simp
  show ?thesis by (rule restoreAtLoad_both_missing [OF h1 h2 h3])
qed

text \<open>
  C4 as stated fails when only one lookup finds no element. With a start address whose
  index is out of range and the end address of scenario B, the decoded start container is
  \<^verbatim>\<open>undefined\<close>, the traversal reaches the end container, splits it and collects it, and
  the restore wraps \<^verbatim>\<open>Wor\<close> in a highlight.
\<close>

theorem restoreAtLoad_missing_start_counterexample:
  "item (getElementsByTagName (root missingStartPage) ''p'') 7 = None
   \<and> restoreAtLoad missingStartPage
       = Inr \<lparr>root = Document 0 [Element 1 ''html'' [] [] [Element 2 ''body'' [] []
                 [Element 3 ''p'' [] [] [Text 4 ''Hello''],
                  Element 5 ''p'' [] []
                    [Element 8 ''span'' [] [(''backgroundColor'', ''yellow'')] [Text 9 ''Wor''],
                     Text 7 ''ld'']]]],
              fresh = 10, selectionItem = selectionItem missingStartPage\<rparr>"
  by code_simp

subsection \<open>A selection inside one text leaf\<close>

text \<open>
  C3. In a well-formed page, when start and end lie in the same text leaf with content
  \<open>c\<close> and \<open>0 \<le> startOffset \<le> endOffset \<le> length c\<close>, \<^verbatim>\<open>getSelectedNodes\<close> returns exactly one
  leaf, and its content is the part of \<open>c\<close> from \<open>startOffset\<close> to \<open>endOffset\<close>. In the
  document \<^verbatim>\<open><p>Hello</p><p>World</p>\<close> with the positions 2 and 5 of the first paragraph,
  the collected leaves are the one leaf \<^verbatim>\<open>llo\<close>, and the mouseup handler stores two addresses
  that both are tag \<^verbatim>\<open>p\<close>, index 0, offset 2, length 3.
\<close>

theorem same_leaf_selection:
  "(\<forall>pg rng s c.
      wellFormed pg \<and> findNode s (root pg) = Some (Text s c)
      \<and> startContainer rng = Some s \<and> endContainer rng = Some s
      \<and> 0 \<le> startOffset rng \<and> startOffset rng \<le> endOffset rng \<and> endOffset rng \<le> int (length c)
      \<longrightarrow> (\<exists>pg'. getSelectedNodes pg rng = Inr (pg', [Some (fresh pg)])
             \<and> findNode (fresh pg) (root pg')
                 = Some (Text (fresh pg)
                     (take (nat (endOffset rng - startOffset rng)) (drop (nat (startOffset rng)) c)))))
   \<and> (\<exists>pgA. getSelectedNodes scenarioPage scenarioRange = Inr (pgA, [Some 7])
          \<and> findNode 7 (root pgA) = Some (Text 7 ''llo''))
   \<and> (\<exists>pgB. mouseup scenarioPage (getSelection scenarioRange) = Inr pgB
          \<and> selectionItem pgB
              = Some [\<lparr>parentTagName = ''p'', parentIndex = 0, textNodeOffset = 2, textNodeLength = 3\<rparr>,
                      \<lparr>parentTagName = ''p'', parentIndex = 0, textNodeOffset = 2, textNodeLength = 3\<rparr>])"
proof (intro conjI allI impI)
  fix pg :: page and rng :: Range and s :: nat and c :: string
  assume "wellFormed pg \<and> findNode s (root pg) = Some (Text s c)
      \<and> startContainer rng = Some s \<and> endContainer rng = Some s
      \<and> 0 \<le> startOffset rng \<and> startOffset rng \<le> endOffset rng \<and> endOffset rng \<le> int (length c)"
  then show "\<exists>pg'. getSelectedNodes pg rng = Inr (pg', [Some (fresh pg)])
             \<and> findNode (fresh pg) (root pg')
                 = Some (Text (fresh pg)
                     (take (nat (endOffset rng - startOffset rng)) (drop (nat (startOffset rng)) c)))"
    using same_leaf_general by blast
next
  let ?pgA = "\<lparr>root = Document 0 [Element 1 ''html'' [] [] [Element 2 ''body'' [] []
                 [Element 3 ''p'' [] [] [Text 4 ''He'', Text 7 ''llo'', Text 8 []],
                  Element 5 ''p'' [] [] [Text 6 ''World'']]]],
              fresh = 9, selectionItem = None\<rparr>"
  have "getSelectedNodes scenarioPage scenarioRange = Inr (?pgA, [Some 7])" by code_simp
  moreover have "findNode 7 (root ?pgA) = Some (Text 7 ''llo'')" by code_simp
  ultimately show "\<exists>pgA. getSelectedNodes scenarioPage scenarioRange = Inr (pgA, [Some 7])
          \<and> findNode 7 (root pgA) = Some (Text 7 ''llo'')"
    by blast
next
  let ?a = "\<lparr>parentTagName = ''p'', parentIndex = 0, textNodeOffset = 2, textNodeLength = 3\<rparr>"
  let ?pgB = "\<lparr>root = Document 0 [Element 1 ''html'' [] [] [Element 2 ''body'' [] []
                 [Element 3 ''p'' [] []
                    [Text 4 ''He'',
                     Element 9 ''span'' [] [(''backgroundColor'', ''yellow'')] [Text 10 ''llo''],
                     Text 8 []],
                  Element 5 ''p'' [] [] [Text 6 ''World'']]]],
              fresh = 11, selectionItem = Some [?a, ?a]\<rparr>"
  have "mouseup scenarioPage (getSelection scenarioRange) = Inr ?pgB" by code_simp
  then show "\<exists>pgB. mouseup scenarioPage (getSelection scenarioRange) = Inr pgB
          \<and> selectionItem pgB = Some [?a, ?a]"
    by simp
qed

theorem same_leaf_selection_witness:
  "\<exists>pg'. getSelectedNodes scenarioPage scenarioRange = Inr (pg', [Some (fresh scenarioPage)])
     \<and> findNode (fresh scenarioPage) (root pg')
         = Some (Text (fresh scenarioPage)
             (take (nat (endOffset scenarioRange - startOffset scenarioRange))
                (drop (nat (startOffset scenarioRange)) ''Hello'')))"
proof -
  have h: "wellFormed scenarioPage \<and> findNode 4 (root scenarioPage) = Some (Text 4 ''Hello'')
      \<and> startContainer scenarioRange = Some 4 \<and> endContainer scenarioRange = Some 4
      \<and> 0 \<le> startOffset scenarioRange \<and> startOffset scenarioRange \<le> endOffset scenarioRange
      \<and> endOffset scenarioRange \<le> int (length ''Hello'')"
    by code_simp
  show ?thesis
    using same_leaf_selection [THEN conjunct1, rule_format, OF h] .
qed

subsection \<open>The collected leaves and the selected text\<close>




end
